theory Spec2Isabelle
  imports Complex_Main "HOL-Library.Word" "HOL-Library.Sublist"
begin

section \<open>JavaScript values and built-ins used by the services\<close>

text \<open>
  A JavaScript string is a sequence of UTF-16 code units. Identifiers, paths and error
  messages, whose characters never matter, are plain \<open>string\<close>s.
\<close>

type_synonym jstring = "16 word list"

datatype jsval =
    JUndefined
  | JNull
  | JBool bool
  | JNum real
  | JStr jstring
  | JArr "jsval list"

text \<open>
  \<open>Array.prototype.slice(start, end)\<close>: a negative index counts from the end, and both
  indices are clamped to the array.
\<close>

definition relative_index :: "int \<Rightarrow> int \<Rightarrow> int" where
  "relative_index k len = (if k < 0 then max (len + k) 0 else min k len)"

definition js_slice :: "int \<Rightarrow> int \<Rightarrow> 'a list \<Rightarrow> 'a list" where
  "js_slice start end xs =
     (let len = int (length xs);
          from = relative_index start len;
          to = relative_index end len
      in take (nat (to - from)) (drop (nat from) xs))"

text \<open>
  The arithmetic of JavaScript numbers is a parameter of the model: the number \<open>0\<close>, the
  operations \<open>+\<close>, \<open>-\<close>, \<open>*\<close>, \<open>/\<close> and \<open>Math.sqrt\<close> with whatever rounding,
  overflow and special values they have, the tests \<open>x === 0\<close> and \<open>x >= y\<close>, and the
  test \<open>x > 0\<close> that a sort applies to what its comparator returns. IEEE-754 double
  arithmetic is one such arithmetic; nothing below depends on which one it is.
\<close>

record 'n arith =
  n_zero :: 'n
  n_add :: "'n \<Rightarrow> 'n \<Rightarrow> 'n"
  n_sub :: "'n \<Rightarrow> 'n \<Rightarrow> 'n"
  n_mul :: "'n \<Rightarrow> 'n \<Rightarrow> 'n"
  n_div :: "'n \<Rightarrow> 'n \<Rightarrow> 'n"
  n_sqrt :: "'n \<Rightarrow> 'n"
  n_is_zero :: "'n \<Rightarrow> bool"
  n_ge :: "'n \<Rightarrow> 'n \<Rightarrow> bool"
  n_positive :: "'n \<Rightarrow> bool"

text \<open>
  \<open>Array.prototype.sort(cmp)\<close> is stable: an element moves behind another one only
  when the comparator, applied to the two in this order, returns a positive number.
  Insertion from the right end keeps, among elements that the comparator does not
  separate, the one that came first in front.
\<close>

fun insert_stable :: "('r \<Rightarrow> bool) \<Rightarrow> ('a \<Rightarrow> 'a \<Rightarrow> 'r) \<Rightarrow> 'a \<Rightarrow> 'a list \<Rightarrow> 'a list" where
  "insert_stable positive cmp x [] = [x]"
| "insert_stable positive cmp x (y # ys) =
     (if positive (cmp x y) then y # insert_stable positive cmp x ys else x # y # ys)"

definition js_sort :: "('r \<Rightarrow> bool) \<Rightarrow> ('a \<Rightarrow> 'a \<Rightarrow> 'r) \<Rightarrow> 'a list \<Rightarrow> 'a list" where
  "js_sort positive cmp xs = foldr (insert_stable positive cmp) xs []"

text \<open>
  A JavaScript \<open>Map\<close> iterates in insertion order; \<open>set\<close> on a key that is present
  replaces the value where the key stands, \<open>set\<close> on a new key appends.
\<close>

fun map_set :: "'k \<Rightarrow> 'v \<Rightarrow> ('k \<times> 'v) list \<Rightarrow> ('k \<times> 'v) list" where
  "map_set k v [] = [(k, v)]"
| "map_set k v ((k', v') # kvs) =
     (if k' = k then (k, v) # kvs else (k', v') # map_set k v kvs)"

fun map_get :: "'k \<Rightarrow> ('k \<times> 'v) list \<Rightarrow> 'v option" where
  "map_get k [] = None"
| "map_get k ((k', v') # kvs) = (if k' = k then Some v' else map_get k kvs)"

definition map_has :: "'k \<Rightarrow> ('k \<times> 'v) list \<Rightarrow> bool" where
  "map_has k kvs = (map_get k kvs \<noteq> None)"

fun map_delete :: "'k \<Rightarrow> ('k \<times> 'v) list \<Rightarrow> ('k \<times> 'v) list" where
  "map_delete k [] = []"
| "map_delete k ((k', v') # kvs) =
     (if k' = k then kvs else (k', v') # map_delete k kvs)"


section \<open>The vector store (src/services/vector-store.js)\<close>

text \<open>
  The elements of a vector, the similarities and the threshold are numbers of the
  arithmetic \<open>'n\<close>. An \<open>async\<close> method is a function from the state before the call to
  its outcome and the state after it; a \<open>throw\<close> is the \<open>Inl\<close> outcome. The logger and
  the persistence hooks (\<open>_loadFromPersistence\<close>, \<open>_persistVector\<close>,
  \<open>_deletePersistedVector\<close>, which only log and return \<open>true\<close>) leave no trace in the
  state.
\<close>

type_synonym metadata = "string \<rightharpoonup> jsval"

record 'n vs_config =
  similarityThreshold :: 'n

record 'n vector_store =
  config :: "'n vs_config"
  dimensions :: "nat option"
  vectors :: "(string \<times> 'n list) list"
  metadata :: "(string \<times> metadata) list"
  initialized :: bool

datatype vs_error =
    NotInitialized                \<comment> \<open>\<open>Vector store not initialized\<close>\<close>
  | InvalidId                     \<comment> \<open>\<open>Invalid id: must be a non-empty string\<close>\<close>
  | InvalidVector                 \<comment> \<open>\<open>Invalid vector: must be a non-empty array of numbers\<close>\<close>
  | DimensionMismatch nat nat     \<comment> \<open>\<open>Vector dimension mismatch: expected .., got ..\<close>\<close>
  | InvalidQueryVector            \<comment> \<open>\<open>Invalid query vector: must be a non-empty array of numbers\<close>\<close>
  | QueryDimensionMismatch nat nat \<comment> \<open>\<open>Query vector dimension mismatch: expected .., got ..\<close>\<close>

record store_result =
  sr_id :: string
  sr_success :: bool

record delete_result =
  dr_id :: string
  dr_success :: bool
  dr_deleted :: bool

record 'n similar_result =
  r_id :: string
  r_similarity :: 'n
  r_metadata :: metadata

record 'n vector_record =
  v_id :: string
  v_vector :: "'n list"
  v_metadata :: metadata

definition VectorStore :: "'n vs_config \<Rightarrow> 'n vector_store" where
  "VectorStore cfg =
     \<lparr>config = cfg, dimensions = None, vectors = [], metadata = [], initialized = False\<rparr>"

definition initialize :: "'n vector_store \<Rightarrow> 'n vector_store" where
  "initialize s = (if initialized s then s else s\<lparr>initialized := True\<rparr>)"

definition storeVector ::
  "string \<Rightarrow> 'n list \<Rightarrow> metadata option \<Rightarrow> int \<Rightarrow> 'n vector_store
     \<Rightarrow> (vs_error + store_result) \<times> 'n vector_store" where
  "storeVector ident vector md now s =
     (if \<not> initialized s then (Inl NotInitialized, s)
      else if ident = [] then (Inl InvalidId, s)
      else if vector = [] then (Inl InvalidVector, s)
      else
        let s1 = (if dimensions s = None then s\<lparr>dimensions := Some (length vector)\<rparr> else s)
        in if Some (length vector) \<noteq> dimensions s1
           then (Inl (DimensionMismatch (the (dimensions s1)) (length vector)), s1)
           else
             let m = (case md of None \<Rightarrow> Map.empty | Some m' \<Rightarrow> m');
                 s2 = s1\<lparr>vectors := map_set ident vector (vectors s1),
                         metadata :=
                           map_set ident (m(''timestamp'' \<mapsto> JNum (of_int now)))
                             (metadata s1)\<rparr>
             in (Inr \<lparr>sr_id = ident, sr_success = True\<rparr>, s2))"

definition deleteVector ::
  "string \<Rightarrow> 'n vector_store \<Rightarrow> (vs_error + delete_result) \<times> 'n vector_store" where
  "deleteVector ident s =
     (if \<not> initialized s then (Inl NotInitialized, s)
      else
        let exists = map_has ident (vectors s);
            s1 = (if exists
                  then s\<lparr>vectors := map_delete ident (vectors s),
                          metadata := map_delete ident (metadata s)\<rparr>
                  else s)
        in (Inr \<lparr>dr_id = ident, dr_success = True, dr_deleted = exists\<rparr>, s1))"

definition metadata_of :: "'n vector_store \<Rightarrow> string \<Rightarrow> metadata" where
  "metadata_of s ident =
     (case map_get ident (metadata s) of None \<Rightarrow> Map.empty | Some m \<Rightarrow> m)"

definition getAllVectors :: "'n vector_store \<Rightarrow> vs_error + 'n vector_record list" where
  "getAllVectors s =
     (if \<not> initialized s then Inl NotInitialized
      else Inr (map (\<lambda>(ident, vector).
                  \<lparr>v_id = ident, v_vector = vector, v_metadata = metadata_of s ident\<rparr>)
                (vectors s)))"

text \<open>The loop of \<open>_calculateCosineSimilarity\<close>, with its three accumulators.\<close>

function cosine_loop ::
  "'n arith \<Rightarrow> 'n list \<Rightarrow> 'n list \<Rightarrow> nat \<Rightarrow> nat \<Rightarrow> 'n \<times> 'n \<times> 'n \<Rightarrow> 'n \<times> 'n \<times> 'n" where
  "cosine_loop ar a b len i (dotProduct, normA, normB) =
     (if i < len
      then cosine_loop ar a b len (i + 1)
             (n_add ar dotProduct (n_mul ar (a ! i) (b ! i)),
              n_add ar normA (n_mul ar (a ! i) (a ! i)),
              n_add ar normB (n_mul ar (b ! i) (b ! i)))
      else (dotProduct, normA, normB))"
  by pat_completeness auto
termination
  by (relation "measure (\<lambda>(ar, a, b, len, i, acc). len - i)") auto

declare cosine_loop.simps [simp del]

definition calculateCosineSimilarity :: "'n arith \<Rightarrow> 'n list \<Rightarrow> 'n list \<Rightarrow> 'n" where
  "calculateCosineSimilarity ar vectorA vectorB =
     (let len = min (length vectorA) (length vectorB) in
      case cosine_loop ar vectorA vectorB len 0 (n_zero ar, n_zero ar, n_zero ar) of
        (dotProduct, sumA, sumB) \<Rightarrow>
          let normA = n_sqrt ar sumA; normB = n_sqrt ar sumB
          in if n_is_zero ar normA \<or> n_is_zero ar normB then n_zero ar
             else n_div ar dotProduct (n_mul ar normA normB))"

text \<open>
  The scan of \<open>findSimilar\<close> over the entries of the Map, pushing the records whose
  similarity passes the threshold.
\<close>

fun scan_similarities ::
  "'n arith \<Rightarrow> 'n vector_store \<Rightarrow> 'n list \<Rightarrow> 'n \<Rightarrow> (string \<times> 'n list) list
     \<Rightarrow> 'n similar_result list \<Rightarrow> 'n similar_result list" where
  "scan_similarities ar s queryVector threshold [] similarities = similarities"
| "scan_similarities ar s queryVector threshold ((ident, vector) # entries) similarities =
     (let similarity = calculateCosineSimilarity ar queryVector vector
      in if n_ge ar similarity threshold
         then scan_similarities ar s queryVector threshold entries
                (similarities @ [\<lparr>r_id = ident, r_similarity = similarity,
                                  r_metadata = metadata_of s ident\<rparr>])
         else scan_similarities ar s queryVector threshold entries similarities)"

text \<open>
  \<open>findSimilar\<close>: the parameters \<open>limit\<close> and \<open>threshold\<close> have defaults (\<open>10\<close> and the
  configured threshold), taken when the argument is absent.
\<close>

definition findSimilar ::
  "'n arith \<Rightarrow> 'n list \<Rightarrow> int option \<Rightarrow> 'n option \<Rightarrow> 'n vector_store
     \<Rightarrow> vs_error + 'n similar_result list" where
  "findSimilar ar queryVector limit_arg threshold_arg s =
     (let limit = (case limit_arg of None \<Rightarrow> 10 | Some l \<Rightarrow> l);
          threshold = (case threshold_arg of None \<Rightarrow> similarityThreshold (config s)
                                          | Some t \<Rightarrow> t)
      in if \<not> initialized s then Inl NotInitialized
         else if queryVector = [] then Inl InvalidQueryVector
         else if dimensions s \<noteq> None \<and> Some (length queryVector) \<noteq> dimensions s
              then Inl (QueryDimensionMismatch (the (dimensions s)) (length queryVector))
         else
           let similarities = scan_similarities ar s queryVector threshold (vectors s) [];
               sorted = js_sort (n_positive ar)
                          (\<lambda>a b. n_sub ar (r_similarity b) (r_similarity a)) similarities
           in Inr (js_slice 0 limit sorted))"

text \<open>
  The states a store can be in: the constructor's, and whatever the public methods make
  of it. (\<open>findSimilar\<close> and \<open>getAllVectors\<close> do not write.)
\<close>

inductive reachable :: "'n vector_store \<Rightarrow> bool" where
  r_new: "reachable (VectorStore cfg)"
| r_initialize: "reachable s \<Longrightarrow> reachable (initialize s)"
| r_store: "reachable s \<Longrightarrow> reachable (snd (storeVector ident vector md now s))"
| r_delete: "reachable s \<Longrightarrow> reachable (snd (deleteVector ident s))"

text \<open>
  The specification of the ranking. \<open>spec_retained\<close>: the stored records whose similarity
  to the query is at least the threshold, in the order of the store. \<open>ordered_arith\<close>:
  the laws of comparison that the ranking relies on, which IEEE-754 numbers obey: the
  difference \<open>y - x\<close> is positive exactly when \<open>y\<close> is strictly above \<open>x\<close>; \<open>>=\<close> is
  transitive; and two numbers that are \<open>>=\<close> a third (so neither is NaN) are comparable.
\<close>

definition spec_retained ::
  "'n arith \<Rightarrow> 'n vector_store \<Rightarrow> 'n list \<Rightarrow> 'n \<Rightarrow> 'n similar_result list" where
  "spec_retained ar s queryVector threshold =
     filter (\<lambda>r. n_ge ar (r_similarity r) threshold)
       (map (\<lambda>(ident, vector).
               \<lparr>r_id = ident,
                r_similarity = calculateCosineSimilarity ar queryVector vector,
                r_metadata = metadata_of s ident\<rparr>)
            (vectors s))"

definition ordered_arith :: "'n arith \<Rightarrow> bool" where
  "ordered_arith ar \<longleftrightarrow>
     (\<forall>x y. n_positive ar (n_sub ar y x) = (n_ge ar y x \<and> \<not> n_ge ar x y))
     \<and> (\<forall>x y z. n_ge ar x y \<and> n_ge ar y z \<longrightarrow> n_ge ar x z)
     \<and> (\<forall>x y t. n_ge ar x t \<and> n_ge ar y t \<longrightarrow> n_ge ar x y \<or> n_ge ar y x)"

text \<open>
  The specification of the similarity: the dot product of the two vectors over the
  product of their norms, and \<open>0\<close> when a norm is zero, every sum (taken from the first
  component on), product, root and quotient being that of the arithmetic. \<open>has_unit\<close>: the number \<open>one\<close> and the zero of
  the arithmetic multiply, add, divide and take roots as \<open>1\<close> and \<open>0\<close> do, which holds of
  the IEEE-754 numbers \<open>1\<close> and \<open>0\<close>.
\<close>

definition spec_dot :: "'n arith \<Rightarrow> 'n list \<Rightarrow> 'n list \<Rightarrow> 'n" where
  "spec_dot ar a b =
     foldl (\<lambda>total (x, y). n_add ar total (n_mul ar x y)) (n_zero ar) (zip a b)"

definition spec_norm :: "'n arith \<Rightarrow> 'n list \<Rightarrow> 'n" where
  "spec_norm ar a = n_sqrt ar (spec_dot ar a a)"

definition spec_cosine :: "'n arith \<Rightarrow> 'n list \<Rightarrow> 'n list \<Rightarrow> 'n" where
  "spec_cosine ar a b =
     (if n_is_zero ar (spec_norm ar a) \<or> n_is_zero ar (spec_norm ar b) then n_zero ar
      else n_div ar (spec_dot ar a b) (n_mul ar (spec_norm ar a) (spec_norm ar b)))"

definition has_unit :: "'n arith \<Rightarrow> 'n \<Rightarrow> bool" where
  "has_unit ar one \<longleftrightarrow>
     n_mul ar one one = one \<and> n_mul ar (n_zero ar) (n_zero ar) = n_zero ar
     \<and> n_mul ar one (n_zero ar) = n_zero ar \<and> n_mul ar (n_zero ar) one = n_zero ar
     \<and> n_add ar (n_zero ar) one = one \<and> n_add ar one (n_zero ar) = one
     \<and> n_add ar (n_zero ar) (n_zero ar) = n_zero ar
     \<and> n_sqrt ar one = one \<and> \<not> n_is_zero ar one
     \<and> n_div ar one one = one \<and> n_div ar (n_zero ar) one = n_zero ar"


section \<open>The embedding service (src/unnamed/part_003)\<close>

text \<open>
  \<open>_callApi\<close> posts to the embedding backend. The backend is a parameter of the model,
  under the types the source documents: a string yields one vector, an array of strings
  yields an array of vectors, and a failed or timed-out request throws an error with a
  message. Every method returns, next to its outcome, the requests it has sent.
\<close>

record embedding_service =
  es_maxBatchSize :: int
  es_apiKey :: string
  es_maxTextLength :: nat
  es_initialized :: bool

record embedding_config =
  batchSize :: int
  apiKey :: string

record backend =
  embed_one :: "jstring \<Rightarrow> string + real list"
  embed_many :: "jstring list \<Rightarrow> string + real list list"

datatype api_input = One jstring | Many "jstring list"

datatype es_error =
    ServiceNotInitialized       \<comment> \<open>\<open>Embedding service not initialized\<close>\<close>
  | ApiKeyNotConfigured         \<comment> \<open>\<open>Hugging Face API key not configured\<close>\<close>
  | InitializationFailed string \<comment> \<open>\<open>Embedding service initialization failed: ..\<close>\<close>
  | InvalidText                 \<comment> \<open>\<open>Invalid input: text must be a non-empty string\<close>\<close>
  | InvalidTexts                \<comment> \<open>\<open>Invalid input: texts must be a non-empty array\<close>\<close>
  | GenerateFailed string       \<comment> \<open>\<open>Failed to generate embedding: ..\<close>\<close>
  | BatchGenerateFailed string  \<comment> \<open>\<open>Failed to generate batch embeddings: ..\<close>\<close>

definition EmbeddingService :: "embedding_config \<Rightarrow> embedding_service" where
  "EmbeddingService cfg =
     \<lparr>es_maxBatchSize = batchSize cfg, es_apiKey = apiKey cfg,
      es_maxTextLength = 8192, es_initialized = False\<rparr>"

text \<open>JavaScript truthiness and \<open>typeof x === 'string'\<close>.\<close>

fun truthy :: "jsval \<Rightarrow> bool" where
  "truthy JUndefined = False"
| "truthy JNull = False"
| "truthy (JBool b) = b"
| "truthy (JNum x) = (x \<noteq> 0)"
| "truthy (JStr t) = (t \<noteq> [])"
| "truthy (JArr xs) = True"

fun is_string :: "jsval \<Rightarrow> bool" where
  "is_string (JStr t) = True"
| "is_string v = False"

text \<open>
  The characters that \<open>String.prototype.trim\<close> strips and that \<open>\s\<close> matches: ECMAScript's
  WhiteSpace and LineTerminator code points.
\<close>

definition is_whitespace :: "16 word \<Rightarrow> bool" where
  "is_whitespace c =
     (c = 0x09 \<or> c = 0x0A \<or> c = 0x0B \<or> c = 0x0C \<or> c = 0x0D \<or> c = 0x20 \<or> c = 0xA0
      \<or> c = 0x1680 \<or> (0x2000 \<le> c \<and> c \<le> 0x200A) \<or> c = 0x2028 \<or> c = 0x2029
      \<or> c = 0x202F \<or> c = 0x205F \<or> c = 0x3000 \<or> c = 0xFEFF)"

definition trim :: "jstring \<Rightarrow> jstring" where
  "trim t = rev (dropWhile is_whitespace (rev (dropWhile is_whitespace t)))"

text \<open>\<open>replace(/\s+/g, ' ')\<close>: every maximal run of whitespace becomes one space.\<close>

function collapse_whitespace :: "jstring \<Rightarrow> jstring" where
  "collapse_whitespace [] = []"
| "collapse_whitespace (c # cs) =
     (if is_whitespace c then 0x20 # collapse_whitespace (dropWhile is_whitespace cs)
      else c # collapse_whitespace cs)"
  by pat_completeness auto
termination
  by (relation "measure length") (auto simp: le_imp_less_Suc length_dropWhile_le)

definition preprocessText :: "embedding_service \<Rightarrow> jsval \<Rightarrow> jstring" where
  "preprocessText svc text =
     (case text of
        JStr t \<Rightarrow>
          let truncated = take (es_maxTextLength svc) t
          in collapse_whitespace (trim truncated)
      | _ \<Rightarrow> [])"

text \<open>
  \<open>initialize\<close> probes the backend once with the text \<open>test connection\<close>; the probe's
  failure is rethrown with the message of the cause.
\<close>

definition test_connection :: jstring where
  "test_connection =
     [0x74, 0x65, 0x73, 0x74, 0x20, 0x63, 0x6F, 0x6E, 0x6E, 0x65, 0x63, 0x74, 0x69, 0x6F, 0x6E]"

definition es_initialize ::
  "backend \<Rightarrow> embedding_service \<Rightarrow> api_input list
     \<Rightarrow> (es_error + unit) \<times> embedding_service \<times> api_input list" where
  "es_initialize api svc sent =
     (if es_initialized svc then (Inr (), svc, sent)
      else if es_apiKey svc = [] then (Inl ApiKeyNotConfigured, svc, sent)
      else case embed_one api test_connection of
             Inl msg \<Rightarrow> (Inl (InitializationFailed msg), svc, sent @ [One test_connection])
           | Inr testResult \<Rightarrow>
               (Inr (), svc\<lparr>es_initialized := True\<rparr>, sent @ [One test_connection]))"

definition generateEmbedding ::
  "embedding_service \<Rightarrow> backend \<Rightarrow> jsval \<Rightarrow> api_input list
     \<Rightarrow> (es_error + real list) \<times> api_input list" where
  "generateEmbedding svc api text sent =
     (if \<not> es_initialized svc then (Inl ServiceNotInitialized, sent)
      else if \<not> truthy text \<or> \<not> is_string text then (Inl InvalidText, sent)
      else
        let processedText = preprocessText svc text
        in case embed_one api processedText of
             Inl msg \<Rightarrow> (Inl (GenerateFailed msg), sent @ [One processedText])
           | Inr embedding \<Rightarrow> (Inr embedding, sent @ [One processedText]))"

text \<open>
  \<open>generateBatchEmbeddings\<close> calls itself on every chunk from inside its loop. The two
  are defined together, with a counter that bounds the depth of calls and the number of
  iterations: \<open>None\<close> means that the counter ran out before the call returned.
\<close>

fun generateBatchEmbeddings ::
  "nat \<Rightarrow> embedding_service \<Rightarrow> backend \<Rightarrow> jsval \<Rightarrow> api_input list
     \<Rightarrow> ((es_error + real list list) \<times> api_input list) option"
and chunk_loop ::
  "nat \<Rightarrow> embedding_service \<Rightarrow> backend \<Rightarrow> jsval list \<Rightarrow> int \<Rightarrow> real list list
     \<Rightarrow> api_input list \<Rightarrow> ((es_error + real list list) \<times> api_input list) option"
where
  "generateBatchEmbeddings 0 svc api texts sent = None"
| "generateBatchEmbeddings (Suc n) svc api texts sent =
     (if \<not> es_initialized svc then Some (Inl ServiceNotInitialized, sent)
      else case texts of
        JArr ts \<Rightarrow>
          if ts = [] then Some (Inl InvalidTexts, sent)
          else if int (length ts) > es_maxBatchSize svc
          then chunk_loop n svc api ts 0 [] sent
          else
            let processedTexts = map (preprocessText svc) ts
            in (case embed_many api processedTexts of
                  Inl msg \<Rightarrow> Some (Inl (BatchGenerateFailed msg), sent @ [Many processedTexts])
                | Inr embeddings \<Rightarrow> Some (Inr embeddings, sent @ [Many processedTexts]))
      | _ \<Rightarrow> Some (Inl InvalidTexts, sent))"
| "chunk_loop 0 svc api ts i results sent = None"
| "chunk_loop (Suc n) svc api ts i results sent =
     (if i < int (length ts)
      then
        let chunk = js_slice i (i + es_maxBatchSize svc) ts
        in (case generateBatchEmbeddings n svc api (JArr chunk) sent of
              None \<Rightarrow> None
            | Some (Inl e, sent') \<Rightarrow> Some (Inl e, sent')
            | Some (Inr chunkResults, sent') \<Rightarrow>
                chunk_loop n svc api ts (i + es_maxBatchSize svc) (results @ chunkResults) sent')
      else Some (Inr results, sent))"

text \<open>
  The specification's chunking: ordered chunks of at most \<open>n\<close> texts, one request each.
\<close>

function spec_chunks :: "nat \<Rightarrow> 'a list \<Rightarrow> 'a list list" where
  "spec_chunks n xs =
     (if n = 0 \<or> xs = [] then [] else take n xs # spec_chunks n (drop n xs))"
  by pat_completeness auto
termination
  by (relation "measure (\<lambda>(n, xs). length xs)") auto

declare spec_chunks.simps [simp del]


section \<open>The file agent (src/unnamed/part_002)\<close>

text \<open>
  The agent's collaborators are parameters of the model: the tools that the registry
  returns for \<open>view\<close> and \<open>glob\<close> (\<open>None\<close> when \<open>getTool\<close> throws), the embedding
  service and the memory engine (\<open>None\<close> when the constructor was given none), and the
  clock. Each collaborator answers as a function of its arguments; a call that throws
  yields the message of the error. \<open>dateNow env n\<close> is what the \<open>n\<close>-th call of
  \<open>Date.now()\<close> returns, and the state counts the calls made so far.

  A call of a collaborator is settled when it returns: whoever awaits it resumes at the
  next turn of the job queue. The operations of one batch therefore take turns in the
  order of the batch, each running from one \<open>await\<close> to its next.
\<close>

record view_metadata =
  vm_size :: nat
  vm_encoding :: string
  vm_timestamp :: int

datatype view_result =
    ViewOk string view_metadata   \<comment> \<open>\<open>{success: true, data: {content, metadata}}\<close>\<close>
  | ViewFail string               \<comment> \<open>\<open>{success: false, error}\<close>\<close>

datatype glob_result =
    GlobOk "string list"          \<comment> \<open>\<open>{success: true, data}\<close>\<close>
  | GlobFail string               \<comment> \<open>\<open>{success: false, error}\<close>\<close>

record cache_entry =
  ce_content :: string
  ce_metadata :: view_metadata
  ce_timestamp :: int

record agent_state =
  fileCache :: "string \<rightharpoonup> cache_entry"
  cacheTTL :: int
  clockReads :: nat

datatype detail =
    Succeeded string nat int      \<comment> \<open>\<open>{path, success: true, size, timestamp}\<close>\<close>
  | Failed string string          \<comment> \<open>\<open>{path, success: false, error}\<close>\<close>

record report =
  pattern :: string
  totalFiles :: nat
  processedFiles :: nat
  failedFiles :: nat
  details :: "detail list"

datatype memory_value =
    FileContent string string "real list"   \<comment> \<open>\<open>{path, content, embedding}\<close>\<close>
  | IndexingResults report

record memory_metadata =
  mm_type :: string
  mm_subject :: string
  mm_timestamp :: int

record agent_env =
  viewTool :: "(string \<Rightarrow> view_result) option"
  globTool :: "(string \<Rightarrow> glob_result) option"
  embeddingService :: "(string \<Rightarrow> string + real list) option"
  memoryEngine :: "(string \<Rightarrow> memory_value \<Rightarrow> memory_metadata \<Rightarrow> string option) option"
  dateNow :: "nat \<Rightarrow> int"

datatype fa_error =
    MissingParameter string
  | ToolNotFound string
  | ReadFailed string string
  | SearchFailed string string
  | EmbeddingServiceRequired
  | MemoryEngineRequired
  | Thrown string

fun message :: "fa_error \<Rightarrow> string" where
  "message (MissingParameter name) = ''Missing required parameter: '' @ name"
| "message (ToolNotFound name) = ''Tool not found: '' @ name"
| "message (ReadFailed path err) = ''Failed to read file '' @ path @ '': '' @ err"
| "message (SearchFailed pat err) =
     ''Failed to search for files matching '' @ pat @ '': '' @ err"
| "message EmbeddingServiceRequired = ''Embedding service required for file indexing''"
| "message MemoryEngineRequired = ''Memory engine required for file indexing''"
| "message (Thrown msg) = msg"

record read_result =
  rr_path :: string
  rr_content :: string
  rr_metadata :: view_metadata
  rr_fromCache :: bool
  rr_timestamp :: int

record search_result =
  sr_pattern :: string
  sr_matches :: "string list"
  sr_count :: nat
  sr_timestamp :: int

record index_result =
  ir_data :: report
  ir_timestamp :: int

definition FileAgent :: agent_state where
  "FileAgent = \<lparr>fileCache = Map.empty, cacheTTL = 1800000, clockReads = 0\<rparr>"

definition date_now :: "agent_env \<Rightarrow> agent_state \<Rightarrow> int \<times> agent_state" where
  "date_now env s = (dateNow env (clockReads s), s\<lparr>clockReads := Suc (clockReads s)\<rparr>)"

text \<open>The part of \<open>readFile\<close> after the cache lookup: the read through the View tool.\<close>

definition read_through ::
  "agent_env \<Rightarrow> string \<Rightarrow> agent_state \<Rightarrow> (fa_error + read_result) \<times> agent_state" where
  "read_through env path s =
     (case viewTool env of
        None \<Rightarrow> (Inl (ToolNotFound ''view''), s)
      | Some view \<Rightarrow>
          (case view path of
             ViewFail err \<Rightarrow> (Inl (ReadFailed path err), s)
           | ViewOk content md \<Rightarrow>
               let (t, s1) = date_now env s;
                   s2 = s1\<lparr>fileCache := (fileCache s1)
                            (path \<mapsto> \<lparr>ce_content = content, ce_metadata = md,
                                       ce_timestamp = t\<rparr>)\<rparr>;
                   (t', s3) = date_now env s2
               in (Inr \<lparr>rr_path = path, rr_content = content, rr_metadata = md,
                        rr_fromCache = False, rr_timestamp = t'\<rparr>, s3)))"

definition readFile ::
  "agent_env \<Rightarrow> string \<Rightarrow> agent_state \<Rightarrow> (fa_error + read_result) \<times> agent_state" where
  "readFile env path s =
     (if path = [] then (Inl (MissingParameter ''path''), s)
      else case fileCache s path of
        Some cachedFile \<Rightarrow>
          let (t, s1) = date_now env s
          in if t - ce_timestamp cachedFile < cacheTTL s1
             then
               let (t', s2) = date_now env s1
               in (Inr \<lparr>rr_path = path, rr_content = ce_content cachedFile,
                        rr_metadata = ce_metadata cachedFile, rr_fromCache = True,
                        rr_timestamp = t'\<rparr>, s2)
             else read_through env path (s1\<lparr>fileCache := (fileCache s1)(path := None)\<rparr>)
      | None \<Rightarrow> read_through env path s)"

definition searchFiles ::
  "agent_env \<Rightarrow> string \<Rightarrow> agent_state \<Rightarrow> (fa_error + search_result) \<times> agent_state" where
  "searchFiles env pat s =
     (if pat = [] then (Inl (MissingParameter ''pattern''), s)
      else case globTool env of
        None \<Rightarrow> (Inl (ToolNotFound ''glob''), s)
      | Some glob \<Rightarrow>
          (case glob pat of
             GlobFail err \<Rightarrow> (Inl (SearchFailed pat err), s)
           | GlobOk found \<Rightarrow>
               let (t, s1) = date_now env s
               in (Inr \<lparr>sr_pattern = pat, sr_matches = found, sr_count = length found,
                        sr_timestamp = t\<rparr>, s1)))"


text \<open>
  One run of \<open>_indexSingleFile\<close>, cut at its \<open>await\<close>s (those of \<open>readFile\<close>, which it
  calls, included). An operation waits for the View tool inside \<open>readFile\<close>, or for
  \<open>readFile\<close>, for \<open>generateEmbedding\<close> or for \<open>storeMemory\<close>, each with the answer that
  it will find when it resumes, or it has settled.
\<close>

datatype operation =
    AwaitView view_result
  | AwaitRead "fa_error + read_result"
  | AwaitEmbedding string "string + real list"
  | AwaitStore string "string option"
  | Settled "fa_error + detail"

text \<open>
  \<open>launch\<close>: the call \<open>this._indexSingleFile(file)\<close> up to its first \<open>await\<close>. It runs
  \<open>readFile\<close> through the cache lookup: a fresh entry makes \<open>readFile\<close> return at once,
  otherwise a stale entry is deleted and the View tool is called.
\<close>

definition call_view :: "agent_env \<Rightarrow> string \<Rightarrow> agent_state \<Rightarrow> operation \<times> agent_state" where
  "call_view env path s =
     (case viewTool env of
        None \<Rightarrow> (AwaitRead (Inl (ToolNotFound ''view'')), s)
      | Some view \<Rightarrow> (AwaitView (view path), s))"

definition launch :: "agent_env \<Rightarrow> string \<Rightarrow> agent_state \<Rightarrow> operation \<times> agent_state" where
  "launch env path s =
     (if path = [] then (AwaitRead (Inl (MissingParameter ''path'')), s)
      else case fileCache s path of
        Some cachedFile \<Rightarrow>
          let (t, s1) = date_now env s
          in if t - ce_timestamp cachedFile < cacheTTL s1
             then
               let (t', s2) = date_now env s1
               in (AwaitRead (Inr \<lparr>rr_path = path, rr_content = ce_content cachedFile,
                                  rr_metadata = ce_metadata cachedFile, rr_fromCache = True,
                                  rr_timestamp = t'\<rparr>), s2)
             else call_view env path (s1\<lparr>fileCache := (fileCache s1)(path := None)\<rparr>)
      | None \<Rightarrow> call_view env path s)"

text \<open>\<open>resume\<close>: the operation runs from the \<open>await\<close> it waits at to the next one.\<close>

fun resume ::
  "agent_env \<Rightarrow> (string \<Rightarrow> string + real list)
     \<Rightarrow> (string \<Rightarrow> memory_value \<Rightarrow> memory_metadata \<Rightarrow> string option)
     \<Rightarrow> string \<Rightarrow> operation \<Rightarrow> agent_state \<Rightarrow> operation \<times> agent_state" where
  "resume env embedder storeMemory path (AwaitView (ViewFail err)) s =
     (AwaitRead (Inl (ReadFailed path err)), s)"
| "resume env embedder storeMemory path (AwaitView (ViewOk content md)) s =
     (let (t, s1) = date_now env s;
          s2 = s1\<lparr>fileCache := (fileCache s1)
                   (path \<mapsto> \<lparr>ce_content = content, ce_metadata = md, ce_timestamp = t\<rparr>)\<rparr>;
          (t', s3) = date_now env s2
      in (AwaitRead (Inr \<lparr>rr_path = path, rr_content = content, rr_metadata = md,
                         rr_fromCache = False, rr_timestamp = t'\<rparr>), s3))"
| "resume env embedder storeMemory path (AwaitRead (Inl e)) s = (Settled (Inl e), s)"
| "resume env embedder storeMemory path (AwaitRead (Inr readResult)) s =
     (let content = rr_content readResult
      in (AwaitEmbedding content (embedder content), s))"
| "resume env embedder storeMemory path (AwaitEmbedding content (Inl msg)) s =
     (Settled (Inl (Thrown msg)), s)"
| "resume env embedder storeMemory path (AwaitEmbedding content (Inr embedding)) s =
     (let (t, s1) = date_now env s
      in (AwaitStore content
            (storeMemory (''file_content:'' @ path) (FileContent path content embedding)
               \<lparr>mm_type = ''file_content'', mm_subject = path, mm_timestamp = t\<rparr>), s1))"
| "resume env embedder storeMemory path (AwaitStore content (Some msg)) s =
     (Settled (Inl (Thrown msg)), s)"
| "resume env embedder storeMemory path (AwaitStore content None) s =
     (let (t', s1) = date_now env s
      in (Settled (Inr (Succeeded path (length content) t')), s1))"
| "resume env embedder storeMemory path (Settled r) s = (Settled r, s)"

fun is_settled :: "operation \<Rightarrow> bool" where
  "is_settled (Settled r) = True"
| "is_settled operation = False"

text \<open>How many \<open>await\<close>s an operation has before it at most.\<close>

fun awaits_left :: "operation \<Rightarrow> nat" where
  "awaits_left (AwaitView r) = 4"
| "awaits_left (AwaitRead r) = 3"
| "awaits_left (AwaitEmbedding content r) = 2"
| "awaits_left (AwaitStore content r) = 1"
| "awaits_left (Settled r) = 0"

text \<open>
  \<open>batch.map(file => this._indexSingleFile(file))\<close> launches the operations in the order
  of the batch. Then the job queue gives every operation that has not settled its turn,
  in the same order, again and again until all have settled.
\<close>

fun launch_all ::
  "agent_env \<Rightarrow> string list \<Rightarrow> agent_state \<Rightarrow> (string \<times> operation) list \<times> agent_state" where
  "launch_all env [] s = ([], s)"
| "launch_all env (file # batch) s =
     (let (operation, s1) = launch env file s;
          (operations, s2) = launch_all env batch s1
      in ((file, operation) # operations, s2))"

fun turn ::
  "agent_env \<Rightarrow> (string \<Rightarrow> string + real list)
     \<Rightarrow> (string \<Rightarrow> memory_value \<Rightarrow> memory_metadata \<Rightarrow> string option)
     \<Rightarrow> (string \<times> operation) list \<Rightarrow> agent_state
     \<Rightarrow> (string \<times> operation) list \<times> agent_state" where
  "turn env embedder storeMemory [] s = ([], s)"
| "turn env embedder storeMemory ((file, operation) # operations) s =
     (let (operation', s1) = resume env embedder storeMemory file operation s;
          (operations', s2) = turn env embedder storeMemory operations s1
      in ((file, operation') # operations', s2))"

function settle_all ::
  "agent_env \<Rightarrow> (string \<Rightarrow> string + real list)
     \<Rightarrow> (string \<Rightarrow> memory_value \<Rightarrow> memory_metadata \<Rightarrow> string option)
     \<Rightarrow> (string \<times> operation) list \<Rightarrow> agent_state
     \<Rightarrow> (string \<times> operation) list \<times> agent_state" where
  "settle_all env embedder storeMemory operations s =
     (if list_all (\<lambda>(file, operation). is_settled operation) operations then (operations, s)
      else
        let (operations', s') = turn env embedder storeMemory operations s
        in settle_all env embedder storeMemory operations' s')"
  by pat_completeness auto
termination
proof (relation "measure (\<lambda>(env, embedder, storeMemory, operations, s).
                            sum_list (map (\<lambda>(file, operation). awaits_left operation) operations))")
  show "wf (measure (\<lambda>(env, embedder, storeMemory, operations, s).
              sum_list (map (\<lambda>(file, operation). awaits_left operation) operations)))"
    by simp
next
  fix env :: agent_env
    and embedder :: "string \<Rightarrow> string + real list"
    and storeMemory :: "string \<Rightarrow> memory_value \<Rightarrow> memory_metadata \<Rightarrow> string option"
    and operations operations' :: "(string \<times> operation) list"
    and s s' :: agent_state
    and x :: "(string \<times> operation) list \<times> agent_state"
  assume pending: "\<not> list_all (\<lambda>(file, operation). is_settled operation) operations"
    and x: "x = turn env embedder storeMemory operations s"
    and split: "(operations', s') = x"
  have one: "awaits_left (fst (resume env embedder storeMemory fl opn t)) < awaits_left opn
             \<or> (is_settled opn
                 \<and> awaits_left (fst (resume env embedder storeMemory fl opn t)) = 0)"
    for fl opn t
    by (induction env embedder storeMemory fl opn t rule: resume.induct)
       (simp_all add: split_def Let_def)
  have all: "sum_list (map (\<lambda>(file, operation). awaits_left operation)
                         (fst (turn env embedder storeMemory ops t)))
               \<le> sum_list (map (\<lambda>(file, operation). awaits_left operation) ops)
             \<and> (\<not> list_all (\<lambda>(file, operation). is_settled operation) ops
                 \<longrightarrow> sum_list (map (\<lambda>(file, operation). awaits_left operation)
                                  (fst (turn env embedder storeMemory ops t)))
                       < sum_list (map (\<lambda>(file, operation). awaits_left operation) ops))"
    for ops t
  proof (induction ops arbitrary: t)
    case Nil
    then show ?case by simp
  next
    case (Cons fo ops)
    obtain fl opn where fo: "fo = (fl, opn)" by (cases fo)
    obtain opn' t1 where r: "resume env embedder storeMemory fl opn t = (opn', t1)"
      by (cases "resume env embedder storeMemory fl opn t")
    obtain ops' t2 where rest: "turn env embedder storeMemory ops t1 = (ops', t2)"
      by (cases "turn env embedder storeMemory ops t1")
    from one [of fl opn t] r
    have head: "awaits_left opn' < awaits_left opn \<or> (is_settled opn \<and> awaits_left opn' = 0)"
      by simp
    from Cons.IH [of t1] rest
    have tail: "sum_list (map (\<lambda>(file, operation). awaits_left operation) ops')
                  \<le> sum_list (map (\<lambda>(file, operation). awaits_left operation) ops)"
      and tail_strict: "\<not> list_all (\<lambda>(file, operation). is_settled operation) ops
                  \<Longrightarrow> sum_list (map (\<lambda>(file, operation). awaits_left operation) ops')
                        < sum_list (map (\<lambda>(file, operation). awaits_left operation) ops)"
      by simp_all
    show ?case
      using head tail tail_strict by (auto simp: fo r rest)
  qed
  have "turn env embedder storeMemory operations s = (operations', s')"
    using x split by simp
  with all [of operations s] pending
  show "((env, embedder, storeMemory, operations', s'), env, embedder, storeMemory, operations, s)
          \<in> measure (\<lambda>(env, embedder, storeMemory, operations, s).
                sum_list (map (\<lambda>(file, operation). awaits_left operation) operations))"
    by simp
qed

declare settle_all.simps [simp del]

text \<open>
  \<open>Promise.allSettled(batch.map(file => this._indexSingleFile(file)))\<close>: one settled
  result for every file of the batch, in the order of the batch.
\<close>

definition settled_results :: "(string \<times> operation) list \<Rightarrow> (fa_error + detail) list" where
  "settled_results operations =
     List.map_filter (\<lambda>(file, operation).
        case operation of Settled r \<Rightarrow> Some r | _ \<Rightarrow> None) operations"

definition settle_batch ::
  "agent_env \<Rightarrow> (string \<Rightarrow> string + real list)
     \<Rightarrow> (string \<Rightarrow> memory_value \<Rightarrow> memory_metadata \<Rightarrow> string option)
     \<Rightarrow> string list \<Rightarrow> agent_state \<Rightarrow> (fa_error + detail) list \<times> agent_state" where
  "settle_batch env embedder storeMemory batch s =
     (let (launched, s1) = launch_all env batch s;
          (operations, s2) = settle_all env embedder storeMemory launched s1
      in (settled_results operations, s2))"

text \<open>The body of the inner loop, for the settled result \<open>j\<close> and the path \<open>batch[j]\<close>.\<close>

fun record_result :: "report \<Rightarrow> (fa_error + detail) \<times> string \<Rightarrow> report" where
  "record_result results (Inr v, filePath) =
     results\<lparr>processedFiles := processedFiles results + 1,
             details := details results @ [v]\<rparr>"
| "record_result results (Inl reason, filePath) =
     results\<lparr>failedFiles := failedFiles results + 1,
             details := details results @
               [Failed filePath
                  (if message reason = [] then ''Unknown error'' else message reason)]\<rparr>"

function batch_loop ::
  "agent_env \<Rightarrow> (string \<Rightarrow> string + real list)
     \<Rightarrow> (string \<Rightarrow> memory_value \<Rightarrow> memory_metadata \<Rightarrow> string option)
     \<Rightarrow> string list \<Rightarrow> nat \<Rightarrow> report \<Rightarrow> agent_state \<Rightarrow> report \<times> agent_state" where
  "batch_loop env embedder storeMemory files i results s =
     (if i < length files
      then
        let batch = js_slice (int i) (int i + 10) files;
            (batchResults, s1) = settle_batch env embedder storeMemory batch s;
            results1 = foldl record_result results (zip batchResults batch)
        in batch_loop env embedder storeMemory files (i + 10) results1 s1
      else (results, s))"
  by pat_completeness auto
termination
  by (relation "measure (\<lambda>(env, embedder, storeMemory, files, i, results, s). length files - i)") auto

declare batch_loop.simps [simp del]

text \<open>
  \<open>indexFiles\<close>. Storing the report in the memory engine sits in a \<open>try\<close> whose
  \<open>catch\<close> only logs, so the answer of the engine does not reach the result; the clock
  is read for the metadata of that call all the same.
\<close>

definition indexFiles ::
  "agent_env \<Rightarrow> string \<Rightarrow> agent_state \<Rightarrow> (fa_error + index_result) \<times> agent_state" where
  "indexFiles env pat s =
     (if pat = [] then (Inl (MissingParameter ''pattern''), s)
      else case embeddingService env of
        None \<Rightarrow> (Inl EmbeddingServiceRequired, s)
      | Some embedder \<Rightarrow>
          (case memoryEngine env of
             None \<Rightarrow> (Inl MemoryEngineRequired, s)
           | Some storeMemory \<Rightarrow>
               (case searchFiles env pat s of
                  (Inl e, s1) \<Rightarrow> (Inl e, s1)
                | (Inr searchResult, s1) \<Rightarrow>
                    let files = sr_matches searchResult;
                        results0 = \<lparr>pattern = pat, totalFiles = length files,
                                    processedFiles = 0, failedFiles = 0, details = []\<rparr>;
                        (results, s2) = batch_loop env embedder storeMemory files 0 results0 s1;
                        (t, s3) = date_now env s2;
                        (t', s4) = date_now env s3
                    in (Inr \<lparr>ir_data = results, ir_timestamp = t'\<rparr>, s4))))"

text \<open>What the report says of one file, given how its operation settled.\<close>

fun report_entry :: "string \<Rightarrow> fa_error + detail \<Rightarrow> detail" where
  "report_entry filePath (Inr v) = v"
| "report_entry filePath (Inl reason) =
     Failed filePath (if message reason = [] then ''Unknown error'' else message reason)"

fun detail_path :: "detail \<Rightarrow> string" where
  "detail_path (Succeeded p n t) = p"
| "detail_path (Failed p e) = p"

fun detail_success :: "detail \<Rightarrow> bool" where
  "detail_success (Succeeded p n t) = True"
| "detail_success (Failed p e) = False"


text \<open>\<open>counted\<close>: the two counters of a report agree with its entries.\<close>

definition counted :: "report \<Rightarrow> bool" where
  "counted rep \<longleftrightarrow>
     processedFiles rep = length (filter detail_success (details rep))
     \<and> failedFiles rep = length (filter (\<lambda>d. \<not> detail_success d) (details rep))"

text \<open>
  The specification of one entry of the report. \<open>shown\<close>: the message of an entry, with
  \<open>Unknown error\<close> for an empty one. \<open>outcome_of\<close>: the entry of a file says what its
  read, its embedding and its storing came to: the first step that fails gives a failed
  entry with the message of that failure, and a file for which the three steps succeed
  gives a succeeded entry with the length of its content. \<open>cache_consistent\<close>: what the
  cache holds for a path is a content that the View tool returns for that path.
\<close>

definition shown :: "string \<Rightarrow> string" where
  "shown msg = (if msg = [] then ''Unknown error'' else msg)"

definition outcome_of ::
  "agent_env \<Rightarrow> (string \<Rightarrow> string + real list)
     \<Rightarrow> (string \<Rightarrow> memory_value \<Rightarrow> memory_metadata \<Rightarrow> string option)
     \<Rightarrow> detail \<Rightarrow> string \<Rightarrow> bool" where
  "outcome_of env embedder storeMemory d filePath =
     (if filePath = [] then d = Failed filePath ''Missing required parameter: path''
      else case viewTool env of
        None \<Rightarrow> d = Failed filePath ''Tool not found: view''
      | Some view \<Rightarrow>
          (case view filePath of
             ViewFail err \<Rightarrow>
               d = Failed filePath (''Failed to read file '' @ filePath @ '': '' @ err)
           | ViewOk content md \<Rightarrow>
               (case embedder content of
                  Inl msg \<Rightarrow> d = Failed filePath (shown msg)
                | Inr embedding \<Rightarrow>
                    (\<exists>t. case storeMemory (''file_content:'' @ filePath)
                                 (FileContent filePath content embedding)
                                 \<lparr>mm_type = ''file_content'', mm_subject = filePath,
                                  mm_timestamp = t\<rparr> of
                           Some msg \<Rightarrow> d = Failed filePath (shown msg)
                         | None \<Rightarrow> (\<exists>t'. d = Succeeded filePath (length content) t')))))"

definition cache_consistent :: "agent_env \<Rightarrow> agent_state \<Rightarrow> bool" where
  "cache_consistent env s \<longleftrightarrow>
     (\<forall>p e. fileCache s p = Some e
        \<longrightarrow> (\<exists>view md. viewTool env = Some view \<and> view p = ViewOk (ce_content e) md))"

text \<open>
  \<open>operation_inv\<close>: what holds of an operation on a file at every turn. A fulfilled
  operation carries a succeeded entry of its file; and, when the cache was consistent
  (\<open>c\<close>), the answers that the operation waits for are those of the collaborators for
  its file.
\<close>

definition operation_inv ::
  "bool \<Rightarrow> agent_env \<Rightarrow> (string \<Rightarrow> string + real list)
     \<Rightarrow> (string \<Rightarrow> memory_value \<Rightarrow> memory_metadata \<Rightarrow> string option)
     \<Rightarrow> string \<Rightarrow> operation \<Rightarrow> bool" where
  "operation_inv c env embedder storeMemory p operation =
     (case operation of
        AwaitView r \<Rightarrow>
          c \<longrightarrow> p \<noteq> [] \<and> (\<exists>view. viewTool env = Some view \<and> view p = r)
      | AwaitRead (Inl e) \<Rightarrow>
          c \<longrightarrow> outcome_of env embedder storeMemory (Failed p (shown (message e))) p
      | AwaitRead (Inr readResult) \<Rightarrow>
          c \<longrightarrow> p \<noteq> []
                \<and> (\<exists>view md. viewTool env = Some view
                      \<and> view p = ViewOk (rr_content readResult) md)
      | AwaitEmbedding content r \<Rightarrow>
          c \<longrightarrow> p \<noteq> [] \<and> r = embedder content
                \<and> (\<exists>view md. viewTool env = Some view \<and> view p = ViewOk content md)
      | AwaitStore content r \<Rightarrow>
          c \<longrightarrow> p \<noteq> []
                \<and> (\<exists>view md embedding t. viewTool env = Some view
                      \<and> view p = ViewOk content md \<and> embedder content = Inr embedding
                      \<and> r = storeMemory (''file_content:'' @ p)
                              (FileContent p content embedding)
                              \<lparr>mm_type = ''file_content'', mm_subject = p,
                               mm_timestamp = t\<rparr>)
      | Settled (Inl e) \<Rightarrow>
          c \<longrightarrow> outcome_of env embedder storeMemory (Failed p (shown (message e))) p
      | Settled (Inr v) \<Rightarrow>
          detail_path v = p \<and> detail_success v
          \<and> (c \<longrightarrow> outcome_of env embedder storeMemory v p))"


section \<open>Example stores and inputs\<close>

text \<open>
  The examples are computed in the arithmetic of the real numbers. On the vectors of the
  examples every sum, product and square root is a whole number that a double holds
  exactly, and the quotients are only compared with each other and with the threshold.
\<close>

definition exact_arith :: "real arith" where
  "exact_arith =
     \<lparr>n_zero = 0, n_add = (+), n_sub = (-), n_mul = (*), n_div = (/), n_sqrt = sqrt,
      n_is_zero = (\<lambda>x. x = 0), n_ge = (\<lambda>x y. y \<le> x), n_positive = (\<lambda>x. 0 < x)\<rparr>"

text \<open>
  An arithmetic in which a quotient by zero is not a number, as \<open>0 / 0\<close> is none in
  IEEE-754: the real numbers and \<open>None\<close>, which every operation hands on.
\<close>

definition partial_arith :: "real option arith" where
  "partial_arith =
     \<lparr>n_zero = Some 0,
      n_add = (\<lambda>x y. case (x, y) of (Some u, Some v) \<Rightarrow> Some (u + v) | _ \<Rightarrow> None),
      n_sub = (\<lambda>x y. case (x, y) of (Some u, Some v) \<Rightarrow> Some (u - v) | _ \<Rightarrow> None),
      n_mul = (\<lambda>x y. case (x, y) of (Some u, Some v) \<Rightarrow> Some (u * v) | _ \<Rightarrow> None),
      n_div = (\<lambda>x y. case (x, y) of
                 (Some u, Some v) \<Rightarrow> if v = 0 then None else Some (u / v)
               | _ \<Rightarrow> None),
      n_sqrt = map_option sqrt,
      n_is_zero = (\<lambda>x. x = Some 0),
      n_ge = (\<lambda>x y. case (x, y) of (Some u, Some v) \<Rightarrow> v \<le> u | _ \<Rightarrow> False),
      n_positive = (\<lambda>x. case x of Some u \<Rightarrow> 0 < u | None \<Rightarrow> False)\<rparr>"

definition example_config :: "real vs_config" where
  "example_config = \<lparr>similarityThreshold = 8 / 10\<rparr>"

definition empty_store :: "real vector_store" where
  "empty_store = initialize (VectorStore example_config)"

definition store_one :: "real vector_store" where
  "store_one = snd (storeVector ''doc1'' [1, 2, 3] None 1000 empty_store)"

text \<open>
  Four vectors whose cosine similarities to \<open>example_query\<close> are 0.9, 0.95, 0.2 and 0.95,
  stored in this order.
\<close>

definition example_query :: "real list" where
  "example_query = [1, 0, 0, 0, 0]"

definition ranked_store :: "real vector_store" where
  "ranked_store =
     snd (storeVector ''v4'' [19, 1, 2, 3, 5] None 4
       (snd (storeVector ''v3'' [1, 4, 2, 2, 0] None 3
         (snd (storeVector ''v2'' [19, 5, 3, 2, 1] None 2
           (snd (storeVector ''v1'' [9, 3, 3, 1, 0] None 1 empty_store)))))))"

definition result_ids :: "vs_error + 'n similar_result list \<Rightarrow> string list" where
  "result_ids r = (case r of Inl e \<Rightarrow> [] | Inr rs \<Rightarrow> map r_id rs)"

text \<open>
  A backend that answers every text with a vector of its own (the code units of the text),
  and two services initialized against it: one that sends one text per request, one with
  the configured batch size of 64.
\<close>

definition example_emb :: "jstring \<Rightarrow> real list" where
  "example_emb t = map (\<lambda>c. real (unat c)) t"

definition example_backend :: backend where
  "example_backend =
     \<lparr>embed_one = (\<lambda>t. Inr (example_emb t)), embed_many = (\<lambda>ts. Inr (map example_emb ts))\<rparr>"

definition single_service :: embedding_service where
  "single_service =
     fst (snd (es_initialize example_backend
                 (EmbeddingService \<lparr>batchSize = 1, apiKey = ''key''\<rparr>) []))"

definition batch_service :: embedding_service where
  "batch_service =
     fst (snd (es_initialize example_backend
                 (EmbeddingService \<lparr>batchSize = 64, apiKey = ''key''\<rparr>) []))"

definition text_a :: jstring where "text_a = [0x61]"
definition text_b :: jstring where "text_b = [0x62]"
definition text_c :: jstring where "text_c = [0x63]"

text \<open>Two spaces, \<open>a\<close>, a space and a tab, \<open>b\<close>, a space.\<close>

definition text_spaced :: jstring where
  "text_spaced = [0x20, 0x20, 0x61, 0x20, 0x09, 0x62, 0x20]"

text \<open>
  Five files, of which the third cannot be read; an embedding service and a memory engine
  that never fail; a clock that returns the number of its reading.
\<close>

definition example_files :: "string list" where
  "example_files = [''a.txt'', ''b.txt'', ''c.txt'', ''d.txt'', ''e.txt'']"

definition example_view :: "string \<Rightarrow> view_result" where
  "example_view p =
     (if p = ''c.txt'' then ViewFail ''ENOENT''
      else ViewOk (''text of '' @ p)
             \<lparr>vm_size = length (''text of '' @ p), vm_encoding = ''utf8'', vm_timestamp = 0\<rparr>)"

definition example_env :: agent_env where
  "example_env =
     \<lparr>viewTool = Some example_view,
      globTool = Some (\<lambda>pat. GlobOk example_files),
      embeddingService = Some (\<lambda>content. Inr [1]),
      memoryEngine = Some (\<lambda>key v md. None),
      dateNow = (\<lambda>n. int n)\<rparr>"





text \<open>
  Two files and a clock that advances by a second at every reading. The cache holds an
  entry for the second file that is fresh at the second reading of the clock and stale
  from the third one on; the View tool can no longer read that file.
\<close>

definition boundary_env :: agent_env where
  "boundary_env =
     \<lparr>viewTool = Some (\<lambda>p. if p = ''b.txt'' then ViewFail ''ENOENT''
                             else ViewOk ''new text''
                                    \<lparr>vm_size = 8, vm_encoding = ''utf8'', vm_timestamp = 0\<rparr>),
      globTool = Some (\<lambda>pat. GlobOk [''a.txt'', ''b.txt'']),
      embeddingService = Some (\<lambda>content. Inr [1]),
      memoryEngine = Some (\<lambda>key v md. None),
      dateNow = (\<lambda>n. 1000 * int n)\<rparr>"

definition boundary_agent :: agent_state where
  "boundary_agent =
     FileAgent\<lparr>fileCache :=
       [''b.txt'' \<mapsto> \<lparr>ce_content = ''old text'',
                        ce_metadata = \<lparr>vm_size = 8, vm_encoding = ''utf8'', vm_timestamp = 0\<rparr>,
                        ce_timestamp = - 1798500\<rparr>]\<rparr>"


section \<open>Properties of the vector store\<close>


subsection \<open>Invariants of reachable stores\<close>

lemma reachable_dim_initialized:
  "reachable s \<Longrightarrow> dimensions s \<noteq> None \<Longrightarrow> initialized s"
  by (induction rule: reachable.induct)
     (auto simp: VectorStore_def initialize_def storeVector_def deleteVector_def Let_def
           split: if_splits)

lemma reachable_nodim_empty:
  "reachable s \<Longrightarrow> dimensions s = None \<Longrightarrow> vectors s = []"
  by (induction rule: reachable.induct)
     (auto simp: VectorStore_def initialize_def storeVector_def deleteVector_def Let_def
           split: if_splits)

lemma reachable_empty_store: "reachable empty_store"
  unfolding empty_store_def by (intro reachable.intros)

lemma empty_store_facts:
  "initialized empty_store" "dimensions empty_store = None"
  by (simp_all add: empty_store_def initialize_def VectorStore_def)

subsection \<open>Cosine similarity\<close>

lemma cosine_loop_folds:
  assumes "i \<le> len" and "len \<le> length a" and "len \<le> length b"
  shows "cosine_loop ar a b len i (d, x, y) =
     (foldl (\<lambda>total (u, v). n_add ar total (n_mul ar u v)) d
        (zip (drop i (take len a)) (drop i (take len b))),
      foldl (\<lambda>total (u, v). n_add ar total (n_mul ar u v)) x
        (zip (drop i (take len a)) (drop i (take len a))),
      foldl (\<lambda>total (u, v). n_add ar total (n_mul ar u v)) y
        (zip (drop i (take len b)) (drop i (take len b))))"
  using assms
proof (induction ar a b len i "(d, x, y)" arbitrary: d x y rule: cosine_loop.induct)
  case (1 ar a b len i d x y)
  show ?case
  proof (cases "i < len")
    case True
    have a: "drop i (take len a) = a ! i # drop (Suc i) (take len a)"
      using True "1.prems" by (simp add: Cons_nth_drop_Suc [symmetric])
    have b: "drop i (take len b) = b ! i # drop (Suc i) (take len b)"
      using True "1.prems" by (simp add: Cons_nth_drop_Suc [symmetric])
    have "cosine_loop ar a b len i (d, x, y) =
            cosine_loop ar a b len (i + 1)
              (n_add ar d (n_mul ar (a ! i) (b ! i)),
               n_add ar x (n_mul ar (a ! i) (a ! i)),
               n_add ar y (n_mul ar (b ! i) (b ! i)))"
      using True by (simp add: cosine_loop.simps [of ar a b len i])
    also have "\<dots> =
       (foldl (\<lambda>total (u, v). n_add ar total (n_mul ar u v))
          (n_add ar d (n_mul ar (a ! i) (b ! i)))
          (zip (drop (i + 1) (take len a)) (drop (i + 1) (take len b))),
        foldl (\<lambda>total (u, v). n_add ar total (n_mul ar u v))
          (n_add ar x (n_mul ar (a ! i) (a ! i)))
          (zip (drop (i + 1) (take len a)) (drop (i + 1) (take len a))),
        foldl (\<lambda>total (u, v). n_add ar total (n_mul ar u v))
          (n_add ar y (n_mul ar (b ! i) (b ! i)))
          (zip (drop (i + 1) (take len b)) (drop (i + 1) (take len b))))"
      using True "1.prems" by (intro "1.hyps") simp_all
    finally show ?thesis by (simp add: a b)
  next
    case False
    then have "i = len" using "1.prems" by simp
    then show ?thesis using "1.prems" by (simp add: cosine_loop.simps [of ar a b len len])
  qed
qed

lemma cosine_loop_spec:
  assumes "length a = length b"
  shows "cosine_loop ar a b (min (length a) (length b)) 0 (n_zero ar, n_zero ar, n_zero ar) =
           (spec_dot ar a b, spec_dot ar a a, spec_dot ar b b)"
  using assms cosine_loop_folds [of 0 "length a" a b ar "n_zero ar" "n_zero ar" "n_zero ar"]
  by (simp add: spec_dot_def)

lemma cosine_formula:
  assumes "length a = length b"
  shows "calculateCosineSimilarity ar a b = spec_cosine ar a b"
  by (simp add: calculateCosineSimilarity_def cosine_loop_spec [OF assms]
      spec_cosine_def spec_norm_def Let_def)

lemma unit_vectors:
  assumes "has_unit ar one"
  shows "spec_cosine ar [one, n_zero ar] [one, n_zero ar] = one"
    and "spec_cosine ar [one, n_zero ar] [n_zero ar, one] = n_zero ar"
  using assms by (simp_all add: has_unit_def spec_cosine_def spec_norm_def spec_dot_def)

text \<open>
  C2. For two vectors of equal length the similarity that the store computes is the dot
  product of the two over the product of their norms, and \<open>0\<close> when the norm of either
  is zero (\<open>spec_cosine\<close>), in the arithmetic of the code. In particular the similarity
  of \<open>[1, 0]\<close> to itself is \<open>1\<close> and its similarity to \<open>[0, 1]\<close> is \<open>0\<close>, in every
  arithmetic in which \<open>1\<close> and \<open>0\<close> behave as units.
\<close>

theorem cosine_similarity_formula:
  "(length a = length b \<longrightarrow> calculateCosineSimilarity ar a b = spec_cosine ar a b)
   \<and> (has_unit ar one \<longrightarrow>
        calculateCosineSimilarity ar [one, n_zero ar] [one, n_zero ar] = one
        \<and> calculateCosineSimilarity ar [one, n_zero ar] [n_zero ar, one] = n_zero ar)"
  by (simp add: cosine_formula unit_vectors)

lemma exact_arith_fields:
  "n_zero exact_arith = 0" "n_add exact_arith = (+)" "n_sub exact_arith = (-)"
  "n_mul exact_arith = (*)" "n_div exact_arith = (/)" "n_sqrt exact_arith = sqrt"
  "n_is_zero exact_arith = (\<lambda>x. x = 0)" "n_ge exact_arith = (\<lambda>x y. y \<le> x)"
  "n_positive exact_arith = (\<lambda>x. 0 < x)"
  by (simp_all add: exact_arith_def)

lemma partial_arith_fields:
  "n_zero partial_arith = Some 0"
  "n_add partial_arith (Some u) (Some v) = Some (u + v)"
  "n_mul partial_arith (Some u) (Some v) = Some (u * v)"
  "n_div partial_arith (Some u) (Some v) = (if v = 0 then None else Some (u / v))"
  "n_sqrt partial_arith (Some u) = Some (sqrt u)"
  "n_is_zero partial_arith x = (x = Some 0)"
  by (simp_all add: partial_arith_def)

lemma has_unit_exact: "has_unit exact_arith 1"
  by (simp add: has_unit_def exact_arith_fields)

text \<open>
  The two examples of the specification, and a vector of norm zero: its similarity to
  \<open>[1, 0]\<close> is \<open>0\<close>, where the quotient of the dot product by the product of the norms
  is not a number.
\<close>

theorem cosine_similarity_formula_witness:
  "length [Some 0, Some 0 :: real option] = length [Some 1, Some 0 :: real option]
   \<and> has_unit exact_arith 1
   \<and> calculateCosineSimilarity exact_arith [1, 0] [1, 0] = 1
   \<and> calculateCosineSimilarity exact_arith [1, 0] [0, 1] = 0
   \<and> calculateCosineSimilarity partial_arith [Some 0, Some 0] [Some 1, Some 0] = Some 0
   \<and> n_div partial_arith (spec_dot partial_arith [Some 0, Some 0] [Some 1, Some 0])
        (n_mul partial_arith (spec_norm partial_arith [Some 0, Some 0])
           (spec_norm partial_arith [Some 1, Some 0])) = None"
  using cosine_similarity_formula [of "[1, 0]" "[1, 0]" exact_arith 1]
    cosine_similarity_formula
      [of "[Some 0, Some 0]" "[Some 1, Some 0]" partial_arith "Some 1"]
    has_unit_exact
  by (simp add: exact_arith_fields(1) spec_cosine_def spec_norm_def spec_dot_def
      partial_arith_fields)


subsection \<open>The stable sort\<close>

lemma set_insert_stable: "set (insert_stable pos cmp x ys) = insert x (set ys)"
  by (induction ys) auto

lemma length_insert_stable: "length (insert_stable pos cmp x ys) = Suc (length ys)"
  by (induction ys) auto

lemma js_sort_Cons: "js_sort pos cmp (x # xs) = insert_stable pos cmp x (js_sort pos cmp xs)"
  by (simp add: js_sort_def)

lemma js_sort_Nil: "js_sort pos cmp [] = []"
  by (simp add: js_sort_def)

lemma set_js_sort: "set (js_sort pos cmp xs) = set xs"
  by (induction xs) (simp_all add: js_sort_Nil js_sort_Cons set_insert_stable)

lemma length_js_sort: "length (js_sort pos cmp xs) = length xs"
  by (induction xs) (simp_all add: js_sort_Nil js_sort_Cons length_insert_stable)

lemma filter_insert_stable:
  assumes "\<forall>y \<in> set ys. P x \<and> P y \<longrightarrow> \<not> pos (cmp x y)"
  shows "filter P (insert_stable pos cmp x ys) = (if P x then x # filter P ys else filter P ys)"
  using assms by (induction ys) auto

lemma filter_js_sort:
  assumes "\<forall>x \<in> set xs. \<forall>y \<in> set xs. P x \<and> P y \<longrightarrow> \<not> pos (cmp x y)"
  shows "filter P (js_sort pos cmp xs) = filter P xs"
  using assms
proof (induction xs)
  case Nil
  then show ?case by (simp add: js_sort_Nil)
next
  case (Cons x xs)
  have "\<forall>y \<in> set (js_sort pos cmp xs). P x \<and> P y \<longrightarrow> \<not> pos (cmp x y)"
    using Cons.prems by (simp add: set_js_sort)
  then have "filter P (insert_stable pos cmp x (js_sort pos cmp xs)) =
               (if P x then x # filter P (js_sort pos cmp xs) else filter P (js_sort pos cmp xs))"
    by (rule filter_insert_stable)
  moreover have "filter P (js_sort pos cmp xs) = filter P xs"
    using Cons by simp
  ultimately show ?case by (simp add: js_sort_Cons)
qed

lemma sorted_insert_stable:
  assumes before: "\<And>y. y \<in> set ys \<Longrightarrow> pos (cmp x y) \<Longrightarrow> G y x"
    and after: "\<And>y. y \<in> set ys \<Longrightarrow> \<not> pos (cmp x y) \<Longrightarrow> G x y"
    and trans: "\<And>y z. y \<in> set ys \<Longrightarrow> z \<in> set ys \<Longrightarrow> G x y \<Longrightarrow> G y z \<Longrightarrow> G x z"
    and sorted: "sorted_wrt G ys"
  shows "sorted_wrt G (insert_stable pos cmp x ys)"
  using assms
proof (induction ys)
  case Nil
  show ?case by simp
next
  case (Cons y ys)
  have tail: "sorted_wrt G ys" and head: "\<forall>z \<in> set ys. G y z"
    using Cons.prems(4) by simp_all
  show ?case
  proof (cases "pos (cmp x y)")
    case True
    have "sorted_wrt G (insert_stable pos cmp x ys)"
    proof (rule Cons.IH)
      fix z assume "z \<in> set ys" "pos (cmp x z)"
      then show "G z x" using Cons.prems(1) [of z] by simp
    next
      fix z assume "z \<in> set ys" "\<not> pos (cmp x z)"
      then show "G x z" using Cons.prems(2) [of z] by simp
    next
      fix u z assume "u \<in> set ys" "z \<in> set ys" "G x u" "G u z"
      then show "G x z" using Cons.prems(3) [of u z] by simp
    next
      show "sorted_wrt G ys" by (rule tail)
    qed
    moreover have "G y x" using True Cons.prems(1) [of y] by simp
    ultimately have "sorted_wrt G (y # insert_stable pos cmp x ys)"
      using head by (simp add: set_insert_stable)
    then show ?thesis using True by simp
  next
    case False
    then have xy: "G x y" using Cons.prems(2) [of y] by simp
    have "\<forall>z \<in> set ys. G x z"
    proof
      fix z assume z: "z \<in> set ys"
      then have "G y z" using head by simp
      with xy z Cons.prems(3) [of y z] show "G x z" by simp
    qed
    then have "sorted_wrt G (x # y # ys)" using xy Cons.prems(4) by simp
    then show ?thesis using False by simp
  qed
qed

lemma sorted_js_sort:
  assumes before: "\<And>x y. x \<in> set xs \<Longrightarrow> y \<in> set xs \<Longrightarrow> pos (cmp x y) \<Longrightarrow> G y x"
    and after: "\<And>x y. x \<in> set xs \<Longrightarrow> y \<in> set xs \<Longrightarrow> \<not> pos (cmp x y) \<Longrightarrow> G x y"
    and trans: "\<And>x y z. x \<in> set xs \<Longrightarrow> y \<in> set xs \<Longrightarrow> z \<in> set xs
                  \<Longrightarrow> G x y \<Longrightarrow> G y z \<Longrightarrow> G x z"
  shows "sorted_wrt G (js_sort pos cmp xs)"
  using assms
proof (induction xs)
  case Nil
  show ?case by (simp add: js_sort_Nil)
next
  case (Cons x xs)
  have IH: "sorted_wrt G (js_sort pos cmp xs)"
  proof (rule Cons.IH)
    fix u y assume "u \<in> set xs" "y \<in> set xs" "pos (cmp u y)"
    then show "G y u" using Cons.prems(1) [of u y] by simp
  next
    fix u y assume "u \<in> set xs" "y \<in> set xs" "\<not> pos (cmp u y)"
    then show "G u y" using Cons.prems(2) [of u y] by simp
  next
    fix u y z assume "u \<in> set xs" "y \<in> set xs" "z \<in> set xs" "G u y" "G y z"
    then show "G u z" using Cons.prems(3) [of u y z] by simp
  qed
  have "sorted_wrt G (insert_stable pos cmp x (js_sort pos cmp xs))"
  proof (rule sorted_insert_stable)
    fix y assume "y \<in> set (js_sort pos cmp xs)" "pos (cmp x y)"
    then show "G y x" using Cons.prems(1) [of x y] by (simp add: set_js_sort)
  next
    fix y assume "y \<in> set (js_sort pos cmp xs)" "\<not> pos (cmp x y)"
    then show "G x y" using Cons.prems(2) [of x y] by (simp add: set_js_sort)
  next
    fix y z assume "y \<in> set (js_sort pos cmp xs)" "z \<in> set (js_sort pos cmp xs)"
      "G x y" "G y z"
    then show "G x z" using Cons.prems(3) [of x y z] by (simp add: set_js_sort)
  next
    show "sorted_wrt G (js_sort pos cmp xs)" by (rule IH)
  qed
  then show ?case by (simp add: js_sort_Cons)
qed

subsection \<open>Ranking\<close>

lemma scan_similarities_retained:
  "scan_similarities ar s q th entries acc =
     acc @ filter (\<lambda>r. n_ge ar (r_similarity r) th)
             (map (\<lambda>(ident, vector).
                     \<lparr>r_id = ident, r_similarity = calculateCosineSimilarity ar q vector,
                      r_metadata = metadata_of s ident\<rparr>) entries)"
  by (induction entries arbitrary: acc) (auto simp: Let_def)

lemma scan_spec_retained:
  "scan_similarities ar s q th (vectors s) [] = spec_retained ar s q th"
  by (simp add: scan_similarities_retained spec_retained_def)

lemma js_slice_take: "0 \<le> limit \<Longrightarrow> js_slice 0 limit xs = take (nat limit) xs"
  by (auto simp: js_slice_def relative_index_def Let_def min_def)

lemma take_top:
  assumes "sorted_wrt G ys"
    and "r \<in> set ys" and "r \<notin> set (take n ys)" and "r' \<in> set (take n ys)"
  shows "G r' r"
proof -
  have "ys = take n ys @ drop n ys" by simp
  moreover have "r \<in> set (drop n ys)"
    using assms(2,3) by (metis Un_iff append_take_drop_id set_append)
  ultimately show ?thesis using assms(1,4) by (metis sorted_wrt_append)
qed

lemma filter_take_prefix: "prefix (filter P (take n xs)) (filter P xs)"
  by (metis append_take_drop_id filter_append prefixI)

lemma retained_passes:
  "r \<in> set (spec_retained ar s q th) \<Longrightarrow> n_ge ar (r_similarity r) th"
  by (simp add: spec_retained_def)

text \<open>
  C3, amended. In an arithmetic with the comparison laws of \<open>ordered_arith\<close> and for a
  limit that is not negative, \<open>findSimilar\<close> returns the first \<open>limit\<close> of the stored
  records whose computed similarity to the query is at least the threshold
  (\<open>spec_retained\<close>), in descending order of similarity: the result is sorted, every
  retained record left out is no more similar than any record returned, and records
  that tie (neither similarity above the other) keep the order in which the store
  iterates over them.
\<close>

theorem findSimilar_ranking:
  assumes "ordered_arith ar" and "initialized s" and "queryVector \<noteq> []"
    and "dimensions s = None \<or> dimensions s = Some (length queryVector)"
    and "0 \<le> limit"
  shows "\<exists>rs. findSimilar ar queryVector (Some limit) (Some threshold) s = Inr rs
          \<and> length rs = min (nat limit) (length (spec_retained ar s queryVector threshold))
          \<and> set rs \<subseteq> set (spec_retained ar s queryVector threshold)
          \<and> sorted_wrt (\<lambda>a b. n_ge ar (r_similarity a) (r_similarity b)) rs
          \<and> (\<forall>r \<in> set (spec_retained ar s queryVector threshold) - set rs.
                \<forall>r' \<in> set rs. n_ge ar (r_similarity r') (r_similarity r))
          \<and> (\<forall>k. prefix
                (filter (\<lambda>r. n_ge ar (r_similarity r) k \<and> n_ge ar k (r_similarity r)) rs)
                (filter (\<lambda>r. n_ge ar (r_similarity r) k \<and> n_ge ar k (r_similarity r))
                   (spec_retained ar s queryVector threshold)))"
proof -
  let ?c = "spec_retained ar s queryVector threshold"
  let ?cmp = "\<lambda>a b. n_sub ar (r_similarity b) (r_similarity a)"
  let ?G = "\<lambda>a b. n_ge ar (r_similarity a) (r_similarity b)"
  let ?srt = "js_sort (n_positive ar) ?cmp ?c"
  let ?rs = "take (nat limit) ?srt"
  have pos: "n_positive ar (n_sub ar y x) = (n_ge ar y x \<and> \<not> n_ge ar x y)" for x y
    using assms(1) unfolding ordered_arith_def by blast
  have trans: "n_ge ar x y \<Longrightarrow> n_ge ar y z \<Longrightarrow> n_ge ar x z" for x y z
    using assms(1) unfolding ordered_arith_def by blast
  have total: "n_ge ar x t \<Longrightarrow> n_ge ar y t \<Longrightarrow> n_ge ar x y \<or> n_ge ar y x" for x y t
    using assms(1) unfolding ordered_arith_def by blast
  have eq: "findSimilar ar queryVector (Some limit) (Some threshold) s = Inr ?rs"
    using assms(2-5) by (auto simp: findSimilar_def Let_def scan_spec_retained js_slice_take)
  have len: "length ?rs = min (nat limit) (length ?c)" by (simp add: length_js_sort)
  have sub: "set ?rs \<subseteq> set ?c"
    using set_take_subset [of "nat limit" ?srt] by (simp add: set_js_sort)
  have sorted: "sorted_wrt ?G ?srt"
  proof (rule sorted_js_sort)
    fix x y assume "n_positive ar (?cmp x y)"
    then show "?G y x" by (simp add: pos)
  next
    fix x y assume x: "x \<in> set ?c" and y: "y \<in> set ?c"
      and n: "\<not> n_positive ar (?cmp x y)"
    from total [OF retained_passes [OF x] retained_passes [OF y]] n
    show "?G x y" by (auto simp: pos)
  next
    fix x y z assume "?G x y" "?G y z"
    then show "?G x z" by (rule trans)
  qed
  then have srt: "sorted_wrt ?G ?rs" by (rule sorted_wrt_take)
  have top: "\<forall>r \<in> set ?c - set ?rs. \<forall>r' \<in> set ?rs. ?G r' r"
  proof (intro ballI)
    fix r r' assume "r \<in> set ?c - set ?rs" "r' \<in> set ?rs"
    then show "?G r' r"
      using take_top [OF sorted, of r "nat limit" r'] by (simp add: set_js_sort)
  qed
  have stab: "\<forall>k. prefix
                (filter (\<lambda>r. n_ge ar (r_similarity r) k \<and> n_ge ar k (r_similarity r)) ?rs)
                (filter (\<lambda>r. n_ge ar (r_similarity r) k \<and> n_ge ar k (r_similarity r)) ?c)"
  proof
    fix k
    let ?tie = "\<lambda>r. n_ge ar (r_similarity r) k \<and> n_ge ar k (r_similarity r)"
    have "filter ?tie ?srt = filter ?tie ?c"
    proof (rule filter_js_sort, intro ballI impI)
      fix x y assume "?tie x \<and> ?tie y"
      then have "n_ge ar (r_similarity x) k" and "n_ge ar k (r_similarity y)" by simp_all
      then have "?G x y" by (rule trans)
      then show "\<not> n_positive ar (?cmp x y)" by (simp add: pos)
    qed
    then show "prefix (filter ?tie ?rs) (filter ?tie ?c)"
      using filter_take_prefix [of ?tie "nat limit" ?srt] by simp
  qed
  show ?thesis
    by (rule exI [of _ ?rs]) (intro conjI eq len sub srt top stab)
qed

subsection \<open>Queries before the first store\<close>

text \<open>
  C9. While no vector has been stored, so that the dimension of the store is not fixed,
  \<open>findSimilar\<close> on an initialized store takes a query vector of any positive length,
  throws no dimension-mismatch error and returns the empty list.
\<close>

theorem findSimilar_unfixed_dimension_empty:
  assumes "reachable s" and "initialized s" and "dimensions s = None" and "queryVector \<noteq> []"
  shows "findSimilar ar queryVector limit_arg threshold_arg s = Inr []"
  using assms reachable_nodim_empty [of s]
  by (simp add: findSimilar_def js_sort_def js_slice_def Let_def)


subsection \<open>Dimension lock-in\<close>

lemma reachable_store_one: "reachable store_one"
  unfolding store_one_def by (intro reachable.intros reachable_empty_store)

lemma store_one_eq:
  "store_one =
     \<lparr>config = example_config, dimensions = Some 3, vectors = [(''doc1'', [1, 2, 3])],
      metadata = [(''doc1'', [''timestamp'' \<mapsto> JNum 1000])], initialized = True\<rparr>"
  by (simp add: store_one_def empty_store_def storeVector_def initialize_def VectorStore_def)

text \<open>
  C1. Once the dimension \<open>D\<close> of a store is fixed, \<open>storeVector\<close> with a valid id and a
  non-empty vector of another length throws the dimension-mismatch error and returns the
  store as it was: records, vectors, metadata and dimension are those of before.
\<close>

theorem storeVector_dimension_mismatch_no_mutation:
  assumes "reachable s" and "dimensions s = Some D"
    and "ident \<noteq> []" and "vector \<noteq> []" and "length vector \<noteq> D"
  shows "storeVector ident vector md now s = (Inl (DimensionMismatch D (length vector)), s)"
  using assms reachable_dim_initialized [of s] by (simp add: storeVector_def)

text \<open>
  The specification's example: a vector of length 3 is stored, then one of length 5 is
  refused; the store holds one record, the first vector, as \<open>getAllVectors\<close> returns it.
\<close>

theorem storeVector_dimension_mismatch_no_mutation_witness:
  "reachable store_one \<and> dimensions store_one = Some 3
   \<and> ''doc2'' \<noteq> [] \<and> [1, 2, 3, 4, 5 :: real] \<noteq> [] \<and> length [1, 2, 3, 4, 5 :: real] \<noteq> 3
   \<and> fst (storeVector ''doc2'' [1, 2, 3, 4, 5] None 2000 store_one) = Inl (DimensionMismatch 3 5)
   \<and> length (vectors (snd (storeVector ''doc2'' [1, 2, 3, 4, 5] None 2000 store_one))) = 1
   \<and> getAllVectors (snd (storeVector ''doc2'' [1, 2, 3, 4, 5] None 2000 store_one)) =
       Inr [\<lparr>v_id = ''doc1'', v_vector = [1, 2, 3],
             v_metadata = [''timestamp'' \<mapsto> JNum 1000]\<rparr>]"
proof -
  have d: "dimensions store_one = Some 3" by (simp add: store_one_eq)
  have "storeVector ''doc2'' [1, 2, 3, 4, 5] None 2000 store_one =
          (Inl (DimensionMismatch 3 (length [1, 2, 3, 4, 5 :: real])), store_one)"
    by (rule storeVector_dimension_mismatch_no_mutation [OF reachable_store_one d]) simp_all
  then show ?thesis
    using reachable_store_one
    by (simp add: store_one_eq getAllVectors_def metadata_of_def)
qed

subsection \<open>The ranking example\<close>

lemma ordered_exact_arith: "ordered_arith exact_arith"
  unfolding ordered_arith_def exact_arith_fields by auto

lemma sqrt_squares: "sqrt 100 = 10" "sqrt 400 = 20" "sqrt 25 = 5"
  using real_sqrt_abs [of 10] real_sqrt_abs [of 20] real_sqrt_abs [of 5] by simp_all

lemma ranked_store_eq:
  "ranked_store =
     \<lparr>config = example_config, dimensions = Some 5,
      vectors = [(''v1'', [9, 3, 3, 1, 0]), (''v2'', [19, 5, 3, 2, 1]),
                 (''v3'', [1, 4, 2, 2, 0]), (''v4'', [19, 1, 2, 3, 5])],
      metadata = [(''v1'', [''timestamp'' \<mapsto> JNum 1]), (''v2'', [''timestamp'' \<mapsto> JNum 2]),
                  (''v3'', [''timestamp'' \<mapsto> JNum 3]), (''v4'', [''timestamp'' \<mapsto> JNum 4])],
      initialized = True\<rparr>"
  by (simp add: ranked_store_def empty_store_def storeVector_def initialize_def VectorStore_def)

lemma example_similarities:
  "calculateCosineSimilarity exact_arith example_query [9, 3, 3, 1, 0] = 9 / 10"
  "calculateCosineSimilarity exact_arith example_query [19, 5, 3, 2, 1] = 19 / 20"
  "calculateCosineSimilarity exact_arith example_query [1, 4, 2, 2, 0] = 2 / 10"
  "calculateCosineSimilarity exact_arith example_query [19, 1, 2, 3, 5] = 19 / 20"
  by (simp_all add: calculateCosineSimilarity_def example_query_def cosine_loop.simps
      exact_arith_fields sqrt_squares)

lemma example_query_facts: "length example_query = 5" "example_query \<noteq> []"
  by (simp_all add: example_query_def)

lemma ranked_top2:
  "findSimilar exact_arith example_query (Some 2) (Some (1 / 2)) ranked_store =
     Inr [\<lparr>r_id = ''v2'', r_similarity = 19 / 20, r_metadata = [''timestamp'' \<mapsto> JNum 2]\<rparr>,
          \<lparr>r_id = ''v4'', r_similarity = 19 / 20, r_metadata = [''timestamp'' \<mapsto> JNum 4]\<rparr>]"
  by (simp add: findSimilar_def ranked_store_eq example_similarities
      metadata_of_def js_sort_def js_slice_def relative_index_def example_query_facts
      exact_arith_fields Let_def)

lemma ranked_top3:
  "result_ids (findSimilar exact_arith example_query (Some 3) (Some (1 / 2)) ranked_store) =
     [''v2'', ''v4'', ''v1'']"
  by (simp add: findSimilar_def ranked_store_eq example_similarities
      result_ids_def metadata_of_def js_sort_def js_slice_def relative_index_def
      example_query_facts exact_arith_fields Let_def)

lemma ranked_retained:
  "map r_id (spec_retained exact_arith ranked_store example_query (1 / 2)) =
     [''v1'', ''v2'', ''v4'']"
  "map r_id (spec_retained exact_arith ranked_store example_query (9 / 10)) =
     [''v1'', ''v2'', ''v4'']"
  "map r_id (spec_retained exact_arith ranked_store example_query (19 / 20)) = [''v2'', ''v4'']"
  by (simp_all add: spec_retained_def ranked_store_eq example_similarities exact_arith_fields)

text \<open>
  C3, as the specification states it: with similarities 0.9, 0.95, 0.2, 0.95, \<open>limit = 2\<close>
  and \<open>threshold = 0.5\<close>, the results would hold the two 0.95 entries and the 0.9 entry.
  The store returns the two 0.95 entries only: the 0.9 entry \<open>v1\<close> is cut by the limit.
\<close>

theorem findSimilar_topk_counterexample:
  "result_ids (findSimilar exact_arith example_query (Some 2) (Some (1 / 2)) ranked_store) =
     [''v2'', ''v4'']
   \<and> ''v1'' \<notin> set (result_ids
                      (findSimilar exact_arith example_query (Some 2) (Some (1 / 2)) ranked_store))
   \<and> map (\<lambda>(ident, vector). calculateCosineSimilarity exact_arith example_query vector)
        (vectors ranked_store) = [9 / 10, 19 / 20, 2 / 10, 19 / 20]"
  by (simp add: ranked_top2 result_ids_def) (simp add: ranked_store_eq example_similarities)

text \<open>
  The example of the specification under the amended claim: the records retained are
  those of \<open>v1\<close>, \<open>v2\<close> and \<open>v4\<close> (the 0.2 entry stays below the threshold); with
  \<open>limit = 2\<close> the two 0.95 entries come back, the first stored first; with \<open>limit = 3\<close>
  the 0.9 entry follows them. A record whose similarity equals the threshold is retained.
\<close>

theorem findSimilar_ranking_witness:
  "ordered_arith exact_arith \<and> initialized ranked_store \<and> example_query \<noteq> []
   \<and> (dimensions ranked_store = None \<or> dimensions ranked_store = Some (length example_query))
   \<and> (0::int) \<le> 2
   \<and> findSimilar exact_arith example_query (Some 2) (Some (1 / 2)) ranked_store =
       Inr [\<lparr>r_id = ''v2'', r_similarity = 19 / 20, r_metadata = [''timestamp'' \<mapsto> JNum 2]\<rparr>,
            \<lparr>r_id = ''v4'', r_similarity = 19 / 20, r_metadata = [''timestamp'' \<mapsto> JNum 4]\<rparr>]
   \<and> map r_id (spec_retained exact_arith ranked_store example_query (1 / 2)) =
       [''v1'', ''v2'', ''v4'']
   \<and> map r_id (spec_retained exact_arith ranked_store example_query (9 / 10)) =
       [''v1'', ''v2'', ''v4'']
   \<and> map r_id (spec_retained exact_arith ranked_store example_query (19 / 20)) =
       [''v2'', ''v4'']
   \<and> 2 \<le> length (spec_retained exact_arith ranked_store example_query (1 / 2))
   \<and> result_ids (findSimilar exact_arith example_query (Some 3) (Some (1 / 2)) ranked_store) =
       [''v2'', ''v4'', ''v1'']"
proof -
  have h1: "initialized ranked_store" by (simp add: ranked_store_eq)
  have h3: "dimensions ranked_store = None
            \<or> dimensions ranked_store = Some (length example_query)"
    by (simp add: ranked_store_eq example_query_facts)
  have h4: "(0::int) \<le> 2" by simp
  from findSimilar_ranking [OF ordered_exact_arith h1 example_query_facts(2) h3 h4, of "1 / 2"]
  obtain rs where
    rs: "findSimilar exact_arith example_query (Some 2) (Some (1 / 2)) ranked_store = Inr rs"
    and len: "length rs =
                min (nat 2) (length (spec_retained exact_arith ranked_store example_query (1 / 2)))"
    by blast
  from rs have "length rs = 2" unfolding ranked_top2 by auto
  with len have "2 \<le> length (spec_retained exact_arith ranked_store example_query (1 / 2))"
    by simp
  then show ?thesis
    using h1 h3 example_query_facts(2) ordered_exact_arith
    by (simp add: ranked_top2 ranked_top3 ranked_retained)
qed

text \<open>An empty store takes queries of length 7 and of length 1.\<close>

theorem findSimilar_unfixed_dimension_empty_witness:
  "reachable empty_store \<and> initialized empty_store \<and> dimensions empty_store = None
   \<and> [1, 2, 3, 4, 5, 6, 7 :: real] \<noteq> []
   \<and> findSimilar exact_arith [1, 2, 3, 4, 5, 6, 7] None None empty_store = Inr []
   \<and> findSimilar exact_arith [1] (Some 3) (Some 0) empty_store = Inr []"
  using reachable_empty_store empty_store_facts
    findSimilar_unfixed_dimension_empty
      [OF reachable_empty_store empty_store_facts,
       of "[1, 2, 3, 4, 5, 6, 7]" exact_arith None None]
    findSimilar_unfixed_dimension_empty
      [OF reachable_empty_store empty_store_facts, of "[1]" exact_arith "Some 3" "Some 0"]
  by simp


section \<open>Properties of the embedding service\<close>

subsection \<open>Preprocessing\<close>


lemma whitespace_space: "is_whitespace 0x20"
  by (simp add: is_whitespace_def)

lemma collapse_length: "length (collapse_whitespace t) \<le> length t"
proof (induction t rule: collapse_whitespace.induct)
  case 1
  then show ?case by simp
next
  case (2 c cs)
  have "length (dropWhile is_whitespace cs) \<le> length cs" by (rule length_dropWhile_le)
  with 2 show ?case by auto
qed

lemma trim_length: "length (trim t) \<le> length t"
proof -
  have "length (dropWhile is_whitespace (rev (dropWhile is_whitespace t)))
          \<le> length (rev (dropWhile is_whitespace t))"
    by (rule length_dropWhile_le)
  also have "\<dots> \<le> length t" by (simp add: length_dropWhile_le)
  finally show ?thesis by (simp add: trim_def)
qed

lemma dropWhile_id: "t = [] \<or> \<not> P (hd t) \<Longrightarrow> dropWhile P t = t"
  by (cases t) auto

lemma last_dropWhile: "dropWhile P xs \<noteq> [] \<Longrightarrow> last (dropWhile P xs) = last xs"
  by (induction xs) (auto split: if_splits)

lemma trim_id:
  assumes "t = [] \<or> (\<not> is_whitespace (hd t) \<and> \<not> is_whitespace (last t))"
  shows "trim t = t"
proof (cases "t = []")
  case True
  then show ?thesis by (simp add: trim_def)
next
  case False
  with assms have h: "\<not> is_whitespace (hd t)" and l: "\<not> is_whitespace (last t)" by auto
  have 1: "dropWhile is_whitespace t = t" using h by (simp add: dropWhile_id)
  have "hd (rev t) = last t" using False by (simp add: hd_rev)
  then have 2: "dropWhile is_whitespace (rev t) = rev t" using l by (simp add: dropWhile_id)
  show ?thesis by (simp add: trim_def 1 2)
qed

lemma trim_ends:
  "trim t = [] \<or> (\<not> is_whitespace (hd (trim t)) \<and> \<not> is_whitespace (last (trim t)))"
proof (cases "trim t = []")
  case True
  then show ?thesis by simp
next
  case False
  let ?d = "dropWhile is_whitespace t"
  let ?e = "dropWhile is_whitespace (rev ?d)"
  have e: "?e \<noteq> []" using False by (simp add: trim_def)
  have d: "?d \<noteq> []"
  proof
    assume a: "?d = []"
    have "?e = []" unfolding a by simp
    with e show False by simp
  qed
  have "\<not> is_whitespace (hd ?e)" using e by (rule hd_dropWhile)
  then have l: "\<not> is_whitespace (last (trim t))" using e by (simp add: trim_def last_rev)
  have "last (rev ?d) = last ?e" using e by (rule last_dropWhile [symmetric])
  then have "hd ?d = last ?e" using d by (simp add: last_rev)
  moreover have "\<not> is_whitespace (hd ?d)" using d by (rule hd_dropWhile)
  ultimately have h: "\<not> is_whitespace (hd (trim t))" using e by (simp add: trim_def hd_rev)
  show ?thesis using h l by simp
qed

lemma collapse_hd:
  "t \<noteq> [] \<Longrightarrow> \<not> is_whitespace (hd t)
     \<Longrightarrow> collapse_whitespace t \<noteq> [] \<and> hd (collapse_whitespace t) = hd t"
  by (cases t) auto

lemma collapse_last:
  "t \<noteq> [] \<Longrightarrow> \<not> is_whitespace (last t)
     \<Longrightarrow> collapse_whitespace t \<noteq> [] \<and> last (collapse_whitespace t) = last t"
proof (induction t rule: collapse_whitespace.induct)
  case 1
  then show ?case by simp
next
  case (2 c cs)
  show ?case
  proof (cases "is_whitespace c")
    case True
    let ?d = "dropWhile is_whitespace cs"
    have cs: "cs \<noteq> []" using 2(3,4) True by auto
    have lcs: "\<not> is_whitespace (last cs)" using 2(4) cs by simp
    have d: "?d \<noteq> []"
    proof
      assume "?d = []"
      then have "\<forall>x \<in> set cs. is_whitespace x" by (simp add: dropWhile_eq_Nil_conv)
      then show False using lcs cs last_in_set by blast
    qed
    have ld: "last ?d = last cs" using d by (rule last_dropWhile)
    from 2(1) [OF True d] lcs ld
    have "collapse_whitespace ?d \<noteq> [] \<and> last (collapse_whitespace ?d) = last cs" by simp
    then show ?thesis using True cs by simp
  next
    case False
    show ?thesis
    proof (cases "cs = []")
      case True
      then show ?thesis using False by simp
    next
      case ne: False
      then have "\<not> is_whitespace (last cs)" using 2(4) by simp
      from 2(2) [OF False ne this] show ?thesis using False ne by simp
    qed
  qed
qed

lemma dropWhile_collapse:
  "t = [] \<or> \<not> is_whitespace (hd t)
     \<Longrightarrow> dropWhile is_whitespace (collapse_whitespace t) = collapse_whitespace t"
  by (cases t) auto

lemma collapse_idem: "collapse_whitespace (collapse_whitespace t) = collapse_whitespace t"
proof (induction t rule: collapse_whitespace.induct)
  case 1
  then show ?case by simp
next
  case (2 c cs)
  show ?case
  proof (cases "is_whitespace c")
    case True
    let ?d = "dropWhile is_whitespace cs"
    have "?d = [] \<or> \<not> is_whitespace (hd ?d)" using hd_dropWhile by blast
    then have "dropWhile is_whitespace (collapse_whitespace ?d) = collapse_whitespace ?d"
      by (rule dropWhile_collapse)
    then show ?thesis using True 2(1) whitespace_space by simp
  next
    case False
    then show ?thesis using 2(2) by simp
  qed
qed

lemma trim_collapse_trim:
  "trim (collapse_whitespace (trim t)) = collapse_whitespace (trim t)"
proof (cases "trim t = []")
  case True
  show ?thesis unfolding True by (simp add: trim_def)
next
  case False
  with trim_ends [of t]
  have "\<not> is_whitespace (hd (trim t))" "\<not> is_whitespace (last (trim t))" by auto
  with False collapse_hd [of "trim t"] collapse_last [of "trim t"] show ?thesis
    by (intro trim_id) simp
qed

text \<open>
  C6. The preprocessing of the embedding service (truncate, trim, collapse runs of
  whitespace) is a function of the text, and applying it to its own result changes
  nothing.
\<close>

theorem preprocessText_idempotent:
  "preprocessText svc (JStr (preprocessText svc x)) = preprocessText svc x"
proof (cases "is_string x")
  case True
  then obtain t where x: "x = JStr t" by (cases x) auto
  let ?y = "collapse_whitespace (trim (take (es_maxTextLength svc) t))"
  have "length ?y \<le> length (trim (take (es_maxTextLength svc) t))" by (rule collapse_length)
  also have "\<dots> \<le> length (take (es_maxTextLength svc) t)" by (rule trim_length)
  also have "\<dots> \<le> es_maxTextLength svc" by simp
  finally have "take (es_maxTextLength svc) ?y = ?y" by simp
  then show ?thesis
    by (simp add: x preprocessText_def trim_collapse_trim collapse_idem)
next
  case False
  then have "preprocessText svc x = []" by (cases x) (simp_all add: preprocessText_def)
  then show ?thesis by (simp add: preprocessText_def trim_def)
qed

lemma spaced_preprocessed:
  "preprocessText \<lparr>es_maxBatchSize = 1, es_apiKey = ''key'', es_maxTextLength = 8192,
                    es_initialized = True\<rparr> (JStr text_spaced) = [0x61, 0x20, 0x62]"
  by (simp add: preprocessText_def text_spaced_def trim_def is_whitespace_def)

lemma example_services:
  "single_service = \<lparr>es_maxBatchSize = 1, es_apiKey = ''key'', es_maxTextLength = 8192,
                       es_initialized = True\<rparr>"
  "batch_service = \<lparr>es_maxBatchSize = 64, es_apiKey = ''key'', es_maxTextLength = 8192,
                      es_initialized = True\<rparr>"
  by (simp_all add: single_service_def batch_service_def es_initialize_def EmbeddingService_def
      example_backend_def)


text \<open>
  The text \<open>text_spaced\<close> is preprocessed to \<open>a b\<close>, and \<open>a b\<close> to itself.
\<close>

theorem preprocessText_idempotent_witness:
  "preprocessText single_service (JStr text_spaced) = [0x61, 0x20, 0x62]
   \<and> preprocessText single_service (JStr [0x61, 0x20, 0x62]) = [0x61, 0x20, 0x62]"
  using preprocessText_idempotent [of single_service "JStr text_spaced"]
  by (simp add: example_services spaced_preprocessed)

subsection \<open>Batches\<close>


lemma js_slice_chunk:
  assumes "0 \<le> i" and "i < int (length ts)" and "1 \<le> m"
  shows "js_slice i (i + m) ts = take (nat m) (drop (nat i) ts)"
proof -
  have "nat (min (i + m) (int (length ts)) - i) = min (nat m) (length ts - nat i)"
    using assms by (auto simp: min_def)
  moreover have "take (min (nat m) (length ts - nat i)) (drop (nat i) ts) =
                   take (nat m) (drop (nat i) ts)"
    by (cases "nat m \<le> length ts - nat i") (simp_all add: min_def)
  moreover have "relative_index i (int (length ts)) = i"
    and "relative_index (i + m) (int (length ts)) = min (i + m) (int (length ts))"
    using assms by (simp_all add: relative_index_def)
  ultimately show ?thesis
    by (simp add: js_slice_def Let_def)
qed

lemma generate_direct:
  assumes "es_initialized svc" and "ts \<noteq> []" and "int (length ts) \<le> es_maxBatchSize svc"
  shows "generateBatchEmbeddings (Suc n) svc api (JArr ts) sent =
           Some (case embed_many api (map (preprocessText svc) ts) of
                   Inl msg \<Rightarrow> Inl (BatchGenerateFailed msg)
                 | Inr embeddings \<Rightarrow> Inr embeddings,
                 sent @ [Many (map (preprocessText svc) ts)])"
  using assms by (simp add: Let_def split: sum.splits)

lemma spec_chunks_Nil: "spec_chunks n [] = []"
  by (simp add: spec_chunks.simps)

lemma spec_chunks_Cons:
  "0 < n \<Longrightarrow> xs \<noteq> [] \<Longrightarrow> spec_chunks n xs = take n xs # spec_chunks n (drop n xs)"
  by (subst spec_chunks.simps) simp

lemma spec_chunks_single:
  assumes "xs \<noteq> []" and "length xs \<le> n"
  shows "spec_chunks n xs = [xs]"
proof -
  have "0 < n" using assms by (cases n) auto
  from spec_chunks_Cons [OF this assms(1)] show ?thesis
    using assms(2) by (simp add: spec_chunks_Nil)
qed

lemma spec_chunks_concat: "0 < n \<Longrightarrow> concat (spec_chunks n xs) = xs"
proof (induction n xs rule: spec_chunks.induct)
  case (1 n xs)
  show ?case
  proof (cases "xs = []")
    case True
    then show ?thesis by (simp add: spec_chunks_Nil)
  next
    case False
    have "concat (spec_chunks n (drop n xs)) = drop n xs"
      using 1 False by simp
    then show ?thesis
      using spec_chunks_Cons [OF 1(2) False] by simp
  qed
qed

lemma spec_chunks_sizes:
  "0 < n \<Longrightarrow> c \<in> set (spec_chunks n xs) \<Longrightarrow> c \<noteq> [] \<and> length c \<le> n"
proof (induction n xs rule: spec_chunks.induct)
  case (1 n xs)
  show ?case
  proof (cases "xs = []")
    case True
    with 1(3) show ?thesis by (simp add: spec_chunks_Nil)
  next
    case False
    have "c = take n xs \<or> c \<in> set (spec_chunks n (drop n xs))"
      using 1(3) spec_chunks_Cons [OF 1(2) False] by simp
    then show ?thesis
    proof
      assume "c = take n xs"
      then show ?thesis using False 1(2) by simp
    next
      assume "c \<in> set (spec_chunks n (drop n xs))"
      then show ?thesis using 1(1) 1(2) False by simp
    qed
  qed
qed

lemma chunk_loop_ok:
  assumes "es_initialized svc" and "1 \<le> es_maxBatchSize svc" and "0 \<le> i"
    and "\<forall>c \<in> set (spec_chunks (nat (es_maxBatchSize svc))
                       (map (preprocessText svc) (drop (nat i) ts))).
           embed_many api c = Inr (map emb c)"
    and "length ts - nat i < fuel"
  shows "chunk_loop fuel svc api ts i results sent =
           Some (Inr (results @ map emb (map (preprocessText svc) (drop (nat i) ts))),
                 sent @ map Many (spec_chunks (nat (es_maxBatchSize svc))
                                    (map (preprocessText svc) (drop (nat i) ts))))"
  using assms(3-5)
proof (induction fuel arbitrary: i results sent)
  case 0
  then show ?case by simp
next
  case (Suc n)
  let ?m = "es_maxBatchSize svc"
  let ?pre = "preprocessText svc"
  let ?rest = "drop (nat i) ts"
  show ?case
  proof (cases "i < int (length ts)")
    case False
    then have "?rest = []" using Suc.prems(1) by simp
    then show ?thesis using False by (simp add: spec_chunks_Nil)
  next
    case True
    let ?chunk = "take (nat ?m) ?rest"
    have rest: "?rest \<noteq> []" using True Suc.prems(1) by simp
    have chunk: "?chunk \<noteq> []" using rest assms(2) by simp
    have fit: "int (length ?chunk) \<le> ?m" using assms(2) by simp
    have sl: "js_slice i (i + ?m) ts = ?chunk"
      using Suc.prems(1) True assms(2) by (rule js_slice_chunk)
    have sc: "spec_chunks (nat ?m) (map ?pre ?rest) =
                map ?pre ?chunk # spec_chunks (nat ?m) (map ?pre (drop (nat (i + ?m)) ts))"
    proof -
      have "drop (nat ?m) (map ?pre ?rest) = map ?pre (drop (nat (i + ?m)) ts)"
        using Suc.prems(1) assms(2) by (simp add: drop_map nat_add_distrib add.commute)
      moreover have "spec_chunks (nat ?m) (map ?pre ?rest) =
                       take (nat ?m) (map ?pre ?rest)
                       # spec_chunks (nat ?m) (drop (nat ?m) (map ?pre ?rest))"
        using rest assms(2) by (intro spec_chunks_Cons) simp_all
      ultimately show ?thesis by (simp only: take_map)
    qed
    have api: "embed_many api (map ?pre ?chunk) = Inr (map emb (map ?pre ?chunk))"
      using Suc.prems(2) sc by simp
    obtain n' where n: "n = Suc n'"
      using True Suc.prems(1,3) by (cases n) auto
    have inner: "generateBatchEmbeddings n svc api (JArr ?chunk) sent =
                   Some (Inr (map emb (map ?pre ?chunk)), sent @ [Many (map ?pre ?chunk)])"
      unfolding n using generate_direct [OF assms(1) chunk fit, of n' api sent] api by simp
    have next_chunks: "\<forall>c \<in> set (spec_chunks (nat ?m) (map ?pre (drop (nat (i + ?m)) ts))).
                         embed_many api c = Inr (map emb c)"
      using Suc.prems(2) sc by simp
    have next_fuel: "length ts - nat (i + ?m) < n"
      using True Suc.prems(1,3) assms(2) by linarith
    have next_i: "0 \<le> i + ?m" using Suc.prems(1) assms(2) by simp
    have IH: "chunk_loop n svc api ts (i + ?m) (results @ map emb (map ?pre ?chunk))
                (sent @ [Many (map ?pre ?chunk)]) =
              Some (Inr ((results @ map emb (map ?pre ?chunk))
                         @ map emb (map ?pre (drop (nat (i + ?m)) ts))),
                    (sent @ [Many (map ?pre ?chunk)])
                    @ map Many (spec_chunks (nat ?m) (map ?pre (drop (nat (i + ?m)) ts))))"
      by (rule Suc.IH [OF next_i next_chunks next_fuel])
    have join: "?chunk @ drop (nat (i + ?m)) ts = ?rest"
    proof -
      have "nat (i + ?m) = nat ?m + nat i"
        using Suc.prems(1) assms(2) by (simp add: nat_add_distrib)
      then have "drop (nat (i + ?m)) ts = drop (nat ?m) ?rest"
        by (simp only: drop_drop)
      then show ?thesis by (simp only: append_take_drop_id)
    qed
    have "map emb (map ?pre ?chunk) @ map emb (map ?pre (drop (nat (i + ?m)) ts)) =
            map emb (map ?pre ?rest)"
      by (simp only: map_append [symmetric] join)
    then show ?thesis
      using True by (simp add: sl inner IH sc del: map_map)
  qed
qed

text \<open>
  C5. With a positive maximal batch size and a backend that answers each chunk with the
  vectors of its texts, \<open>generateBatchEmbeddings\<close> on a non-empty sequence returns, given
  enough of the call counter, the vector of the \<open>n\<close>-th preprocessed text at position
  \<open>n\<close>, and the requests it has sent are the ordered chunks of the preprocessed texts,
  none empty, none longer than the maximal batch size, one request per chunk.
\<close>

theorem batch_embeddings_chunked_in_order:
  assumes "es_initialized svc" and "1 \<le> es_maxBatchSize svc" and "ts \<noteq> []"
    and "\<forall>c \<in> set (spec_chunks (nat (es_maxBatchSize svc)) (map (preprocessText svc) ts)).
           embed_many api c = Inr (map emb c)"
    and "length ts + 2 \<le> fuel"
  shows "generateBatchEmbeddings fuel svc api (JArr ts) sent =
           Some (Inr (map (\<lambda>t. emb (preprocessText svc t)) ts),
                 sent @ map Many (spec_chunks (nat (es_maxBatchSize svc))
                                    (map (preprocessText svc) ts)))
         \<and> concat (spec_chunks (nat (es_maxBatchSize svc)) (map (preprocessText svc) ts)) =
             map (preprocessText svc) ts
         \<and> (\<forall>c \<in> set (spec_chunks (nat (es_maxBatchSize svc)) (map (preprocessText svc) ts)).
               c \<noteq> [] \<and> int (length c) \<le> es_maxBatchSize svc)"
proof -
  let ?m = "es_maxBatchSize svc"
  let ?pre = "preprocessText svc"
  obtain n where fuel: "fuel = Suc n" and n: "length ts < n"
    using assms(5) by (cases fuel) auto
  have run: "generateBatchEmbeddings fuel svc api (JArr ts) sent =
           Some (Inr (map (\<lambda>t. emb (?pre t)) ts),
                 sent @ map Many (spec_chunks (nat ?m) (map ?pre ts)))"
  proof (cases "int (length ts) > ?m")
    case True
    have "chunk_loop n svc api ts 0 [] sent =
            Some (Inr ([] @ map emb (map ?pre (drop (nat 0) ts))),
                  sent @ map Many (spec_chunks (nat ?m) (map ?pre (drop (nat 0) ts))))"
      by (rule chunk_loop_ok [OF assms(1,2)]) (use assms(4) n in simp_all)
    then show ?thesis
      unfolding fuel using True assms(1,3) by (simp add: o_def)
  next
    case False
    then have fit: "int (length ts) \<le> ?m" by simp
    then have single: "spec_chunks (nat ?m) (map ?pre ts) = [map ?pre ts]"
      using assms(3) by (intro spec_chunks_single) simp_all
    then have "embed_many api (map ?pre ts) = Inr (map emb (map ?pre ts))"
      using assms(4) by simp
    then show ?thesis
      unfolding fuel using generate_direct [OF assms(1,3) fit, of n api sent] single
      by (simp add: o_def)
  qed
  have pos: "0 < nat ?m" using assms(2) by simp
  have sizes: "\<forall>c \<in> set (spec_chunks (nat ?m) (map ?pre ts)). c \<noteq> [] \<and> int (length c) \<le> ?m"
  proof
    fix c assume "c \<in> set (spec_chunks (nat ?m) (map ?pre ts))"
    from spec_chunks_sizes [OF pos this] show "c \<noteq> [] \<and> int (length c) \<le> ?m"
      using assms(2) by linarith
  qed
  show ?thesis using run spec_chunks_concat [OF pos] sizes by simp
qed


lemma example_preprocess:
  "preprocessText single_service (JStr text_a) = text_a"
  "preprocessText single_service (JStr text_b) = text_b"
  "preprocessText single_service (JStr text_c) = text_c"
  by (simp_all add: preprocessText_def example_services text_a_def text_b_def text_c_def
      trim_def is_whitespace_def)

lemma example_chunks:
  "spec_chunks (Suc 0) [text_a, text_b, text_c] = [[text_a], [text_b], [text_c]]"
  by (simp add: spec_chunks_Cons spec_chunks_Nil)

text \<open>
  The example of the specification: batch size 1 and the texts \<open>a\<close>, \<open>b\<close>, \<open>c\<close> give
  three requests of one text and the three vectors in the order of the texts.
\<close>

theorem batch_embeddings_chunked_in_order_witness:
  "es_initialized single_service \<and> 1 \<le> es_maxBatchSize single_service
   \<and> [JStr text_a, JStr text_b, JStr text_c] \<noteq> []
   \<and> length [JStr text_a, JStr text_b, JStr text_c] + 2 \<le> (5::nat)
   \<and> generateBatchEmbeddings 5 single_service example_backend
         (JArr [JStr text_a, JStr text_b, JStr text_c]) [] =
       Some (Inr [example_emb text_a, example_emb text_b, example_emb text_c],
             [Many [text_a], Many [text_b], Many [text_c]])
   \<and> example_emb text_a = [97] \<and> example_emb text_b = [98] \<and> example_emb text_c = [99]"
proof -
  have i: "es_initialized single_service" and m: "1 \<le> es_maxBatchSize single_service"
    and m1: "es_maxBatchSize single_service = 1"
    by (simp_all add: example_services)
  have ne: "[JStr text_a, JStr text_b, JStr text_c] \<noteq> []" by simp
  have api: "\<forall>c \<in> set (spec_chunks (nat (es_maxBatchSize single_service))
                 (map (preprocessText single_service) [JStr text_a, JStr text_b, JStr text_c])).
               embed_many example_backend c = Inr (map example_emb c)"
    by (simp add: example_backend_def)
  have fuel: "length [JStr text_a, JStr text_b, JStr text_c] + 2 \<le> (5::nat)" by simp
  from batch_embeddings_chunked_in_order [OF i m ne api fuel, of "[]"]
  have "generateBatchEmbeddings 5 single_service example_backend
          (JArr [JStr text_a, JStr text_b, JStr text_c]) [] =
        Some (Inr [example_emb text_a, example_emb text_b, example_emb text_c],
              [Many [text_a], Many [text_b], Many [text_c]])"
    by (simp add: example_preprocess m1 example_chunks)
  then show ?thesis
    using i m by (simp add: example_emb_def text_a_def text_b_def text_c_def)
qed

lemma chunk_loop_no_invalid_input:
  assumes "es_initialized svc" and "1 \<le> es_maxBatchSize svc" and "0 \<le> i"
    and "length ts - nat i < fuel"
  shows "\<exists>r sent'. chunk_loop fuel svc api ts i results sent = Some (r, sent')
           \<and> r \<noteq> Inl InvalidTexts \<and> r \<noteq> Inl InvalidText"
  using assms(3,4)
proof (induction fuel arbitrary: i results sent)
  case 0
  then show ?case by simp
next
  case (Suc n)
  let ?m = "es_maxBatchSize svc"
  show ?case
  proof (cases "i < int (length ts)")
    case False
    then show ?thesis by simp
  next
    case True
    let ?chunk = "take (nat ?m) (drop (nat i) ts)"
    have chunk: "?chunk \<noteq> []" using True Suc.prems(1) assms(2) by simp
    have fit: "int (length ?chunk) \<le> ?m" using assms(2) by simp
    have sl: "js_slice i (i + ?m) ts = ?chunk"
      using Suc.prems(1) True assms(2) by (rule js_slice_chunk)
    obtain n' where n: "n = Suc n'"
      using True Suc.prems by (cases n) auto
    note inner = generate_direct [OF assms(1) chunk fit, of n' api sent]
    show ?thesis
    proof (cases "embed_many api (map (preprocessText svc) ?chunk)")
      case (Inl msg)
      then show ?thesis using True inner by (simp add: sl n)
    next
      case (Inr chunkResults)
      have next_fuel: "length ts - nat (i + ?m) < n"
        using True Suc.prems assms(2) by linarith
      have next_i: "0 \<le> i + ?m" using Suc.prems(1) assms(2) by simp
      from Suc.IH [OF next_i next_fuel] show ?thesis
        using True inner Inr by (simp add: sl n)
    qed
  qed
qed

text \<open>
  C10. \<open>generateBatchEmbeddings\<close> checks its argument for being a non-empty array and
  nothing more: whatever the elements are, it throws no invalid-input error (an element
  that is not a string is preprocessed to the empty string), whereas \<open>generateEmbedding\<close>
  refuses an empty string and a value that is not a string.
\<close>

theorem batch_does_not_validate_elements:
  assumes "es_initialized svc" and "1 \<le> es_maxBatchSize svc" and "ts \<noteq> []"
    and "length ts + 2 \<le> fuel"
  shows "(\<exists>r sent'. generateBatchEmbeddings fuel svc api (JArr ts) sent = Some (r, sent')
            \<and> r \<noteq> Inl InvalidTexts \<and> r \<noteq> Inl InvalidText)
         \<and> (\<forall>v. \<not> is_string v \<longrightarrow> preprocessText svc v = [])
         \<and> (\<forall>v. \<not> truthy v \<or> \<not> is_string v
                \<longrightarrow> generateEmbedding svc api v sent = (Inl InvalidText, sent))"
proof -
  obtain n where fuel: "fuel = Suc n" and n: "length ts < n"
    using assms(4) by (cases fuel) auto
  have batch: "\<exists>r sent'. generateBatchEmbeddings fuel svc api (JArr ts) sent = Some (r, sent')
            \<and> r \<noteq> Inl InvalidTexts \<and> r \<noteq> Inl InvalidText"
  proof (cases "int (length ts) > es_maxBatchSize svc")
    case True
    have "length ts - nat 0 < n" using n by simp
    from chunk_loop_no_invalid_input [OF assms(1,2) _ this, of api "[]" sent]
    show ?thesis unfolding fuel using True assms(1,3) by simp
  next
    case False
    then have fit: "int (length ts) \<le> es_maxBatchSize svc" by simp
    show ?thesis
      unfolding fuel using generate_direct [OF assms(1,3) fit, of n api sent]
      by (cases "embed_many api (map (preprocessText svc) ts)") simp_all
  qed
  have pre: "\<forall>v. \<not> is_string v \<longrightarrow> preprocessText svc v = []"
  proof (intro allI impI)
    fix v assume "\<not> is_string v"
    then show "preprocessText svc v = []" by (cases v) (simp_all add: preprocessText_def)
  qed
  have single: "\<forall>v. \<not> truthy v \<or> \<not> is_string v
                  \<longrightarrow> generateEmbedding svc api v sent = (Inl InvalidText, sent)"
    using assms(1) by (simp add: generateEmbedding_def)
  show ?thesis using batch pre single by blast
qed

text \<open>
  A batch of an empty string, \<open>null\<close> and the text \<open>a\<close> is sent as one request of
  the texts \<open>''\<close>, \<open>''\<close>, \<open>a\<close>; alone, the first two are refused.
\<close>

theorem batch_does_not_validate_elements_witness:
  "es_initialized batch_service \<and> 1 \<le> es_maxBatchSize batch_service
   \<and> [JStr [], JNull, JStr text_a] \<noteq> [] \<and> length [JStr [], JNull, JStr text_a] + 2 \<le> (5::nat)
   \<and> generateBatchEmbeddings 5 batch_service example_backend
        (JArr [JStr [], JNull, JStr text_a]) [] =
       Some (Inr [[], [], [97]], [Many [[], [], text_a]])
   \<and> generateEmbedding batch_service example_backend (JStr []) [] = (Inl InvalidText, [])
   \<and> generateEmbedding batch_service example_backend JNull [] = (Inl InvalidText, [])
   \<and> generateEmbedding batch_service example_backend (JStr text_a) [] =
       (Inr [97], [One text_a])"
proof -
  have i: "es_initialized batch_service" and m: "1 \<le> es_maxBatchSize batch_service"
    by (simp_all add: example_services)
  have ne: "[JStr [], JNull, JStr text_a] \<noteq> []" by simp
  have fuel: "length [JStr [], JNull, JStr text_a] + 2 \<le> (5::nat)" by simp
  note inst = batch_does_not_validate_elements [OF i m ne fuel, of example_backend "[]"]
  from inst have e1: "generateEmbedding batch_service example_backend (JStr []) [] =
                        (Inl InvalidText, [])"
    and e2: "generateEmbedding batch_service example_backend JNull [] = (Inl InvalidText, [])"
    and p2: "preprocessText batch_service JNull = []"
    by simp_all
  have p3: "preprocessText batch_service (JStr text_a) = text_a"
    and p1: "preprocessText batch_service (JStr []) = []"
    by (simp_all add: preprocessText_def example_services text_a_def trim_def is_whitespace_def)
  have fit: "int (length [JStr [], JNull, JStr text_a]) \<le> es_maxBatchSize batch_service"
    by (simp add: example_services)
  from generate_direct [OF i ne fit, of 4 example_backend "[]"]
  have b: "generateBatchEmbeddings 5 batch_service example_backend
        (JArr [JStr [], JNull, JStr text_a]) [] =
       Some (Inr [[], [], [97]], [Many [[], [], text_a]])"
    by (simp add: p1 p2 p3 example_backend_def example_emb_def) (simp add: text_a_def)
  have e3: "generateEmbedding batch_service example_backend (JStr text_a) [] =
              (Inr [97], [One text_a])"
    using i by (simp add: generateEmbedding_def p3 example_backend_def example_emb_def)
               (simp add: text_a_def)
  show ?thesis using i m e1 e2 e3 b by simp
qed


section \<open>Properties of the file agent\<close>


subsection \<open>Operations and \<open>readFile\<close>\<close>

text \<open>
  An operation, launched and resumed once, has done what \<open>readFile\<close> does when it is
  awaited alone.
\<close>

lemma launch_settled_readFile:
  assumes "fst (launch env path s) = AwaitRead r"
  shows "readFile env path s = (r, snd (launch env path s))"
  using assms
  by (auto simp: launch_def call_view_def readFile_def read_through_def Let_def split_def
           split: if_splits option.splits view_result.splits)

lemma launch_view_readFile:
  assumes "fst (launch env path s) = AwaitView r"
  shows "resume env embedder storeMemory path (AwaitView r) (snd (launch env path s)) =
           (AwaitRead (fst (readFile env path s)), snd (readFile env path s))"
  using assms
  by (auto simp: launch_def call_view_def readFile_def read_through_def Let_def split_def
           split: if_splits option.splits view_result.splits)

subsection \<open>What holds of an operation at every turn\<close>

lemma shown_message: "shown (c # cs) = c # cs"
  by (simp add: shown_def)

lemma operation_inv_simps:
  "operation_inv c env embedder storeMemory p (AwaitView r) =
     (c \<longrightarrow> p \<noteq> [] \<and> (\<exists>view. viewTool env = Some view \<and> view p = r))"
  "operation_inv c env embedder storeMemory p (AwaitRead (Inl e)) =
     (c \<longrightarrow> outcome_of env embedder storeMemory (Failed p (shown (message e))) p)"
  "operation_inv c env embedder storeMemory p (AwaitRead (Inr readResult)) =
     (c \<longrightarrow> p \<noteq> []
           \<and> (\<exists>view md. viewTool env = Some view
                 \<and> view p = ViewOk (rr_content readResult) md))"
  "operation_inv c env embedder storeMemory p (AwaitEmbedding content er) =
     (c \<longrightarrow> p \<noteq> [] \<and> er = embedder content
           \<and> (\<exists>view md. viewTool env = Some view \<and> view p = ViewOk content md))"
  "operation_inv c env embedder storeMemory p (AwaitStore content sr) =
     (c \<longrightarrow> p \<noteq> []
           \<and> (\<exists>view md embedding t. viewTool env = Some view
                 \<and> view p = ViewOk content md \<and> embedder content = Inr embedding
                 \<and> sr = storeMemory (''file_content:'' @ p)
                          (FileContent p content embedding)
                          \<lparr>mm_type = ''file_content'', mm_subject = p, mm_timestamp = t\<rparr>))"
  "operation_inv c env embedder storeMemory p (Settled (Inl e)) =
     (c \<longrightarrow> outcome_of env embedder storeMemory (Failed p (shown (message e))) p)"
  "operation_inv c env embedder storeMemory p (Settled (Inr v)) =
     (detail_path v = p \<and> detail_success v
      \<and> (c \<longrightarrow> outcome_of env embedder storeMemory v p))"
  by (simp_all add: operation_inv_def)

lemma cache_consistent_cong:
  "fileCache s' = fileCache s \<Longrightarrow> cache_consistent env s' = cache_consistent env s"
  by (simp add: cache_consistent_def)

lemma cache_consistent_evict:
  "cache_consistent env s \<Longrightarrow> fileCache s' = (fileCache s)(p := None)
     \<Longrightarrow> cache_consistent env s'"
  by (simp add: cache_consistent_def)

lemma cache_consistent_put:
  assumes "cache_consistent env s"
    and "fileCache s' = (fileCache s)(p \<mapsto> e)"
    and "viewTool env = Some view" and "view p = ViewOk (ce_content e) md"
  shows "cache_consistent env s'"
  using assms by (auto simp: cache_consistent_def)

lemma outcome_missing_path:
  "outcome_of env embedder storeMemory (Failed [] ''Missing required parameter: path'') []"
  by (simp add: outcome_of_def)

lemma outcome_no_tool:
  "p \<noteq> [] \<Longrightarrow> viewTool env = None
     \<Longrightarrow> outcome_of env embedder storeMemory (Failed p ''Tool not found: view'') p"
  by (simp add: outcome_of_def)

lemma outcome_read_failed:
  "p \<noteq> [] \<Longrightarrow> viewTool env = Some view \<Longrightarrow> view p = ViewFail err
     \<Longrightarrow> outcome_of env embedder storeMemory
           (Failed p (''Failed to read file '' @ p @ '': '' @ err)) p"
  by (simp add: outcome_of_def)

lemma outcome_embed_failed:
  "p \<noteq> [] \<Longrightarrow> viewTool env = Some view \<Longrightarrow> view p = ViewOk content md
     \<Longrightarrow> embedder content = Inl msg
     \<Longrightarrow> outcome_of env embedder storeMemory (Failed p (shown msg)) p"
  by (simp add: outcome_of_def)

lemma outcome_store_failed:
  assumes "p \<noteq> []" and "viewTool env = Some view" and "view p = ViewOk content md"
    and "embedder content = Inr embedding"
    and "storeMemory (''file_content:'' @ p) (FileContent p content embedding)
           \<lparr>mm_type = ''file_content'', mm_subject = p, mm_timestamp = t\<rparr> = Some msg"
  shows "outcome_of env embedder storeMemory (Failed p (shown msg)) p"
  unfolding outcome_of_def using assms by (auto intro!: exI [of _ t])

lemma outcome_stored:
  assumes "p \<noteq> []" and "viewTool env = Some view" and "view p = ViewOk content md"
    and "embedder content = Inr embedding"
    and "storeMemory (''file_content:'' @ p) (FileContent p content embedding)
           \<lparr>mm_type = ''file_content'', mm_subject = p, mm_timestamp = t\<rparr> = None"
  shows "outcome_of env embedder storeMemory (Succeeded p (length content) t') p"
  unfolding outcome_of_def using assms by (auto intro!: exI [of _ t])

lemma call_view_inv:
  assumes "p \<noteq> []"
  shows "operation_inv c env embedder storeMemory p (fst (call_view env p s))
         \<and> snd (call_view env p s) = s"
proof (cases "viewTool env")
  case None
  then show ?thesis
    using assms outcome_no_tool [of p env embedder storeMemory]
    by (simp add: call_view_def operation_inv_simps shown_message)
next
  case (Some view)
  then show ?thesis
    using assms by (simp add: call_view_def operation_inv_simps)
qed

lemma launch_inv:
  assumes "c \<longrightarrow> cache_consistent env s"
  shows "operation_inv c env embedder storeMemory p (fst (launch env p s))
         \<and> (c \<longrightarrow> cache_consistent env (snd (launch env p s)))"
proof (cases "p = []")
  case True
  then show ?thesis
    using assms outcome_missing_path [of env embedder storeMemory]
    by (simp add: launch_def operation_inv_simps shown_message)
next
  case ne: False
  show ?thesis
  proof (cases "fileCache s p")
    case None
    then have "launch env p s = call_view env p s" using ne by (simp add: launch_def)
    then show ?thesis using call_view_inv [OF ne, of c env embedder storeMemory s] assms by simp
  next
    case (Some e)
    show ?thesis
    proof (cases "dateNow env (clockReads s) - ce_timestamp e < cacheTTL s")
      case True
      let ?s2 = "s\<lparr>clockReads := Suc (Suc (clockReads s))\<rparr>"
      have l: "launch env p s =
                 (AwaitRead (Inr \<lparr>rr_path = p, rr_content = ce_content e,
                                  rr_metadata = ce_metadata e, rr_fromCache = True,
                                  rr_timestamp = dateNow env (Suc (clockReads s))\<rparr>), ?s2)"
        using ne Some True by (simp add: launch_def date_now_def)
      have "c \<longrightarrow> (\<exists>view md. viewTool env = Some view \<and> view p = ViewOk (ce_content e) md)"
        using assms Some unfolding cache_consistent_def by blast
      moreover have "cache_consistent env ?s2 = cache_consistent env s"
        by (rule cache_consistent_cong) simp
      ultimately show ?thesis using assms ne by (simp add: l operation_inv_simps)
    next
      case False
      let ?s1 = "s\<lparr>clockReads := Suc (clockReads s),
                   fileCache := (fileCache s)(p := None)\<rparr>"
      have l: "launch env p s = call_view env p ?s1"
        using ne Some False by (simp add: launch_def date_now_def)
      have "c \<longrightarrow> cache_consistent env ?s1"
        using assms cache_consistent_evict [of env s ?s1 p] by simp
      then show ?thesis using call_view_inv [OF ne, of c env embedder storeMemory ?s1] by (simp add: l)
    qed
  qed
qed

lemma resume_inv:
  assumes "operation_inv c env embedder storeMemory p operation"
    and "c \<longrightarrow> cache_consistent env s"
  shows "operation_inv c env embedder storeMemory p
           (fst (resume env embedder storeMemory p operation s))
         \<and> (c \<longrightarrow> cache_consistent env (snd (resume env embedder storeMemory p operation s)))"
proof (cases operation)
  case (AwaitView r)
  show ?thesis
  proof (cases r)
    case (ViewOk content md)
    let ?e = "\<lparr>ce_content = content, ce_metadata = md,
                ce_timestamp = dateNow env (clockReads s)\<rparr>"
    let ?s3 = "s\<lparr>clockReads := Suc (Suc (clockReads s)),
                 fileCache := (fileCache s)(p \<mapsto> ?e)\<rparr>"
    have r: "resume env embedder storeMemory p operation s =
               (AwaitRead (Inr \<lparr>rr_path = p, rr_content = content, rr_metadata = md,
                                rr_fromCache = False,
                                rr_timestamp = dateNow env (Suc (clockReads s))\<rparr>), ?s3)"
      by (simp add: AwaitView ViewOk date_now_def)
    have v: "c \<longrightarrow> p \<noteq> [] \<and> (\<exists>view. viewTool env = Some view \<and> view p = ViewOk content md)"
      using assms(1) by (simp add: AwaitView ViewOk operation_inv_simps)
    have "c \<longrightarrow> cache_consistent env ?s3"
    proof
      assume c
      with v obtain view where "viewTool env = Some view" "view p = ViewOk content md" by blast
      with assms(2) \<open>c\<close> show "cache_consistent env ?s3"
        using cache_consistent_put [of env s ?s3 p ?e view md] by simp
    qed
    then show ?thesis using v by (auto simp: r operation_inv_simps)
  next
    case (ViewFail err)
    have "c \<longrightarrow> outcome_of env embedder storeMemory
                  (Failed p (''Failed to read file '' @ p @ '': '' @ err)) p"
      using assms(1) outcome_read_failed [of p env _ err embedder storeMemory]
      by (auto simp: AwaitView ViewFail operation_inv_simps)
    then show ?thesis
      using assms(2) by (simp add: AwaitView ViewFail operation_inv_simps shown_message)
  qed
next
  case (AwaitRead r)
  then show ?thesis
    using assms by (cases r) (simp_all add: operation_inv_simps Let_def)
next
  case (AwaitEmbedding content er)
  show ?thesis
  proof (cases er)
    case (Inl msg)
    have "c \<longrightarrow> outcome_of env embedder storeMemory (Failed p (shown msg)) p"
      using assms(1) outcome_embed_failed [of p env _ content _ embedder msg storeMemory]
      by (auto simp: AwaitEmbedding Inl operation_inv_simps)
    then show ?thesis
      using assms(2) by (simp add: AwaitEmbedding Inl operation_inv_simps shown_def)
  next
    case (Inr embedding)
    let ?s1 = "s\<lparr>clockReads := Suc (clockReads s)\<rparr>"
    let ?sr = "storeMemory (''file_content:'' @ p) (FileContent p content embedding)
                 \<lparr>mm_type = ''file_content'', mm_subject = p,
                  mm_timestamp = dateNow env (clockReads s)\<rparr>"
    have r: "resume env embedder storeMemory p operation s = (AwaitStore content ?sr, ?s1)"
      by (simp add: AwaitEmbedding Inr date_now_def)
    have er: "c \<longrightarrow> p \<noteq> [] \<and> embedder content = Inr embedding
                    \<and> (\<exists>view md. viewTool env = Some view \<and> view p = ViewOk content md)"
      using assms(1) by (auto simp: AwaitEmbedding Inr operation_inv_simps)
    have inv: "operation_inv c env embedder storeMemory p (AwaitStore content ?sr)"
      unfolding operation_inv_simps using er by blast
    have "cache_consistent env ?s1 = cache_consistent env s"
      by (rule cache_consistent_cong) simp
    then show ?thesis using inv assms(2) by (simp add: r)
  qed
next
  case (AwaitStore content sr)
  have stored: "\<exists>view md embedding t. viewTool env = Some view
                  \<and> view p = ViewOk content md \<and> embedder content = Inr embedding
                  \<and> storeMemory (''file_content:'' @ p) (FileContent p content embedding)
                        \<lparr>mm_type = ''file_content'', mm_subject = p, mm_timestamp = t\<rparr> = sr"
    and ne: "p \<noteq> []" if c
    using assms(1) that unfolding AwaitStore operation_inv_simps by auto
  show ?thesis
  proof (cases sr)
    case None
    have "outcome_of env embedder storeMemory (Succeeded p (length content) t') p" if c for t'
    proof -
      from stored [OF that] obtain view md embedding t where
        "viewTool env = Some view" "view p = ViewOk content md"
        "embedder content = Inr embedding"
        "storeMemory (''file_content:'' @ p) (FileContent p content embedding)
           \<lparr>mm_type = ''file_content'', mm_subject = p, mm_timestamp = t\<rparr> = None"
        unfolding None by blast
      with ne [OF that] show ?thesis by (rule outcome_stored)
    qed
    moreover have "cache_consistent env (s\<lparr>clockReads := Suc (clockReads s)\<rparr>) =
                     cache_consistent env s"
      by (rule cache_consistent_cong) simp
    ultimately show ?thesis
      using assms(2) by (simp add: AwaitStore None operation_inv_simps date_now_def)
  next
    case (Some msg)
    have "outcome_of env embedder storeMemory (Failed p (shown msg)) p" if c
    proof -
      from stored [OF that] obtain view md embedding t where
        "viewTool env = Some view" "view p = ViewOk content md"
        "embedder content = Inr embedding"
        "storeMemory (''file_content:'' @ p) (FileContent p content embedding)
           \<lparr>mm_type = ''file_content'', mm_subject = p, mm_timestamp = t\<rparr> = Some msg"
        unfolding Some by blast
      with ne [OF that] show ?thesis by (rule outcome_store_failed)
    qed
    then show ?thesis
      using assms(2) by (simp add: AwaitStore Some operation_inv_simps shown_def)
  qed
next
  case (Settled r)
  then show ?thesis using assms by simp
qed


lemma launch_all_inv:
  assumes "c \<longrightarrow> cache_consistent env s"
  shows "list_all (\<lambda>(p, operation). operation_inv c env embedder storeMemory p operation)
           (fst (launch_all env batch s))
         \<and> map fst (fst (launch_all env batch s)) = batch
         \<and> (c \<longrightarrow> cache_consistent env (snd (launch_all env batch s)))"
  using assms
proof (induction batch arbitrary: s)
  case Nil
  then show ?case by simp
next
  case (Cons p batch)
  obtain operation s1 where l: "launch env p s = (operation, s1)"
    by (cases "launch env p s")
  obtain operations s2 where r: "launch_all env batch s1 = (operations, s2)"
    by (cases "launch_all env batch s1")
  from launch_inv [OF Cons.prems, of embedder storeMemory p] l
  have 1: "operation_inv c env embedder storeMemory p operation"
    and 2: "c \<longrightarrow> cache_consistent env s1"
    by simp_all
  from Cons.IH [OF 2] r show ?case using 1 by (simp add: l)
qed

lemma turn_inv:
  assumes "list_all (\<lambda>(p, operation). operation_inv c env embedder storeMemory p operation)
             operations"
    and "c \<longrightarrow> cache_consistent env s"
  shows "list_all (\<lambda>(p, operation). operation_inv c env embedder storeMemory p operation)
           (fst (turn env embedder storeMemory operations s))
         \<and> map fst (fst (turn env embedder storeMemory operations s)) = map fst operations
         \<and> (c \<longrightarrow> cache_consistent env (snd (turn env embedder storeMemory operations s)))"
  using assms
proof (induction operations arbitrary: s)
  case Nil
  then show ?case by simp
next
  case (Cons po operations)
  obtain p operation where po: "po = (p, operation)" by (cases po)
  obtain operation' s1 where r: "resume env embedder storeMemory p operation s = (operation', s1)"
    by (cases "resume env embedder storeMemory p operation s")
  obtain operations' s2 where t: "turn env embedder storeMemory operations s1 = (operations', s2)"
    by (cases "turn env embedder storeMemory operations s1")
  have inv: "operation_inv c env embedder storeMemory p operation"
    and rest: "list_all (\<lambda>(p, operation). operation_inv c env embedder storeMemory p operation)
                 operations"
    using Cons.prems(1) by (simp_all add: po)
  from resume_inv [OF inv Cons.prems(2)] r
  have 1: "operation_inv c env embedder storeMemory p operation'"
    and 2: "c \<longrightarrow> cache_consistent env s1"
    by simp_all
  from Cons.IH [OF rest 2] t show ?case using 1 by (simp add: po r)
qed

lemma settle_all_inv:
  assumes "list_all (\<lambda>(p, operation). operation_inv c env embedder storeMemory p operation)
             operations"
    and "c \<longrightarrow> cache_consistent env s"
  shows "list_all (\<lambda>(p, operation). operation_inv c env embedder storeMemory p operation)
           (fst (settle_all env embedder storeMemory operations s))
         \<and> list_all (\<lambda>(p, operation). is_settled operation)
             (fst (settle_all env embedder storeMemory operations s))
         \<and> map fst (fst (settle_all env embedder storeMemory operations s)) = map fst operations
         \<and> (c \<longrightarrow> cache_consistent env
                     (snd (settle_all env embedder storeMemory operations s)))"
  using assms
proof (induction env embedder storeMemory operations s rule: settle_all.induct)
  case (1 env embedder storeMemory operations s)
  show ?case
  proof (cases "list_all (\<lambda>(file, operation). is_settled operation) operations")
    case True
    then show ?thesis
      using "1.prems" by (simp add: settle_all.simps [of env embedder storeMemory operations])
  next
    case False
    obtain operations' s' where t: "turn env embedder storeMemory operations s = (operations', s')"
      by (cases "turn env embedder storeMemory operations s")
    from turn_inv [OF "1.prems"] t
    have inv: "list_all (\<lambda>(p, operation). operation_inv c env embedder storeMemory p operation)
                 operations'"
      and names: "map fst operations' = map fst operations"
      and cons: "c \<longrightarrow> cache_consistent env s'"
      by simp_all
    have step: "settle_all env embedder storeMemory operations s =
                  settle_all env embedder storeMemory operations' s'"
      using False by (simp add: settle_all.simps [of env embedder storeMemory operations] t)
    from "1.IH" [OF False t [symmetric] refl inv cons]
    show ?thesis unfolding step using names by simp
  qed
qed

lemma settled_results_inv:
  assumes "list_all (\<lambda>(p, operation). is_settled operation) operations"
    and "list_all (\<lambda>(p, operation). Q p operation) operations"
  shows "list_all2 (\<lambda>r p. Q p (Settled r)) (settled_results operations) (map fst operations)"
  using assms
proof (induction operations)
  case Nil
  then show ?case by (simp add: settled_results_def map_filter_simps)
next
  case (Cons po operations)
  obtain p operation where po: "po = (p, operation)" by (cases po)
  from Cons.prems(1) obtain r where r: "operation = Settled r"
    by (cases operation) (simp_all add: po)
  have "list_all2 (\<lambda>r p. Q p (Settled r)) (settled_results operations) (map fst operations)"
    using Cons by simp
  moreover have "Q p (Settled r)" using Cons.prems(2) by (simp add: po r)
  ultimately show ?case
    by (simp add: settled_results_def map_filter_simps po r)
qed

lemma settle_batch_inv:
  assumes "c \<longrightarrow> cache_consistent env s"
  shows "list_all2 (\<lambda>r p. operation_inv c env embedder storeMemory p (Settled r))
           (fst (settle_batch env embedder storeMemory batch s)) batch
         \<and> (c \<longrightarrow> cache_consistent env (snd (settle_batch env embedder storeMemory batch s)))"
proof -
  obtain launched s1 where l: "launch_all env batch s = (launched, s1)"
    by (cases "launch_all env batch s")
  obtain operations s2 where a: "settle_all env embedder storeMemory launched s1 = (operations, s2)"
    by (cases "settle_all env embedder storeMemory launched s1")
  from launch_all_inv [OF assms, of embedder storeMemory batch] l
  have l_inv: "list_all (\<lambda>(p, operation). operation_inv c env embedder storeMemory p operation)
                 launched"
    and l_names: "map fst launched = batch"
    and l_cons: "c \<longrightarrow> cache_consistent env s1"
    by simp_all
  from settle_all_inv [OF l_inv l_cons] a
  have inv: "list_all (\<lambda>(p, operation). operation_inv c env embedder storeMemory p operation)
               operations"
    and settled: "list_all (\<lambda>(p, operation). is_settled operation) operations"
    and names: "map fst operations = batch"
    and cons: "c \<longrightarrow> cache_consistent env s2"
    using l_names by simp_all
  have "list_all2 (\<lambda>r p. operation_inv c env embedder storeMemory p (Settled r))
          (settled_results operations) (map fst operations)"
    using settled inv by (rule settled_results_inv)
  then show ?thesis using cons names by (simp add: settle_batch_def l a)
qed


subsection \<open>The indexing report\<close>

lemma report_entry_shown: "report_entry p (Inl e) = Failed p (shown (message e))"
  by (simp add: shown_def)

lemma record_results:
  assumes "list_all2 (\<lambda>r p. operation_inv c env embedder storeMemory p (Settled r)) rs batch"
    and "counted rep"
  shows "counted (foldl record_result rep (zip rs batch))
         \<and> (\<exists>ds. details (foldl record_result rep (zip rs batch)) = details rep @ ds
                  \<and> list_all2 (\<lambda>d p. detail_path d = p
                                  \<and> (c \<longrightarrow> outcome_of env embedder storeMemory d p)) ds batch)
         \<and> totalFiles (foldl record_result rep (zip rs batch)) = totalFiles rep
         \<and> pattern (foldl record_result rep (zip rs batch)) = pattern rep"
  using assms
proof (induction rs batch arbitrary: rep rule: list_all2_induct)
  case Nil
  then show ?case by simp
next
  case (Cons r rs p batch)
  let ?rep1 = "record_result rep (r, p)"
  have d1: "details ?rep1 = details rep @ [report_entry p r]"
    by (cases r) simp_all
  have t1: "totalFiles ?rep1 = totalFiles rep" "pattern ?rep1 = pattern rep"
    by (cases r; simp)+
  have e: "detail_path (report_entry p r) = p
           \<and> (c \<longrightarrow> outcome_of env embedder storeMemory (report_entry p r) p)"
    and c1: "counted ?rep1"
  proof -
    show "detail_path (report_entry p r) = p
           \<and> (c \<longrightarrow> outcome_of env embedder storeMemory (report_entry p r) p)"
    proof (cases r)
      case (Inl reason)
      then show ?thesis
        using Cons.hyps(1) by (simp add: operation_inv_simps report_entry_shown del: report_entry.simps)
    next
      case (Inr v)
      then show ?thesis using Cons.hyps(1) by (simp add: operation_inv_simps)
    qed
    show "counted ?rep1"
    proof (cases r)
      case (Inl reason)
      then show ?thesis using Cons.prems by (simp add: counted_def)
    next
      case (Inr v)
      then have "detail_success v" using Cons.hyps(1) by (simp add: operation_inv_simps)
      then show ?thesis using Inr Cons.prems by (simp add: counted_def)
    qed
  qed
  from Cons.IH [OF c1] obtain ds where
    c: "counted (foldl record_result ?rep1 (zip rs batch))"
    and ds: "details (foldl record_result ?rep1 (zip rs batch)) = details ?rep1 @ ds"
    and es: "list_all2 (\<lambda>d p. detail_path d = p
                          \<and> (c \<longrightarrow> outcome_of env embedder storeMemory d p)) ds batch"
    and t: "totalFiles (foldl record_result ?rep1 (zip rs batch)) = totalFiles ?rep1"
           "pattern (foldl record_result ?rep1 (zip rs batch)) = pattern ?rep1"
    by blast
  have "details (foldl record_result rep (zip (r # rs) (p # batch))) =
          details rep @ (report_entry p r # ds)"
    using ds d1 by simp
  moreover have "list_all2 (\<lambda>d p. detail_path d = p
                   \<and> (c \<longrightarrow> outcome_of env embedder storeMemory d p))
                   (report_entry p r # ds) (p # batch)"
    using e es by simp
  ultimately show ?case using c t t1 by auto
qed

lemma js_slice_batch:
  assumes "i < length files"
  shows "js_slice (int i) (int i + 10) files = take 10 (drop i files)"
proof -
  have "nat (min (int i + 10) (int (length files)) - int i) = min 10 (length files - i)"
    using assms by (auto simp: min_def)
  moreover have "take (min 10 (length files - i)) (drop i files) = take 10 (drop i files)"
    by (cases "10 \<le> length files - i") (simp_all add: min_def)
  moreover have "relative_index (int i) (int (length files)) = int i"
    and "relative_index (int i + 10) (int (length files)) = min (int i + 10) (int (length files))"
    using assms by (simp_all add: relative_index_def)
  ultimately show ?thesis
    by (simp add: js_slice_def Let_def)
qed

lemma batch_loop_report:
  assumes "counted results"
    and "list_all2 (\<lambda>d p. detail_path d = p
                      \<and> (c \<longrightarrow> outcome_of env embedder storeMemory d p))
           (details results) (take i files)"
    and "c \<longrightarrow> cache_consistent env s"
  shows "counted (fst (batch_loop env embedder storeMemory files i results s))
         \<and> list_all2 (\<lambda>d p. detail_path d = p
                         \<and> (c \<longrightarrow> outcome_of env embedder storeMemory d p))
              (details (fst (batch_loop env embedder storeMemory files i results s))) files
         \<and> totalFiles (fst (batch_loop env embedder storeMemory files i results s)) =
             totalFiles results
         \<and> pattern (fst (batch_loop env embedder storeMemory files i results s)) =
             pattern results"
  using assms
proof (induction env embedder storeMemory files i results s rule: batch_loop.induct)
  case (1 env embedder storeMemory files i results s)
  show ?case
  proof (cases "i < length files")
    case False
    then show ?thesis
      using "1.prems" by (simp add: batch_loop.simps [of env embedder storeMemory files i])
  next
    case True
    let ?batch = "take 10 (drop i files)"
    have sl: "js_slice (int i) (int i + 10) files = ?batch" using True by (rule js_slice_batch)
    obtain brs s1 where st: "settle_batch env embedder storeMemory ?batch s = (brs, s1)"
      by (cases "settle_batch env embedder storeMemory ?batch s")
    let ?results1 = "foldl record_result results (zip brs ?batch)"
    from settle_batch_inv [OF "1.prems"(3), of embedder storeMemory ?batch] st
    have brs: "list_all2 (\<lambda>r p. operation_inv c env embedder storeMemory p (Settled r))
                 brs ?batch"
      and cons: "c \<longrightarrow> cache_consistent env s1"
      by simp_all
    from record_results [OF brs "1.prems"(1)] obtain ds where
      c: "counted ?results1"
      and ds: "details ?results1 = details results @ ds"
      and es: "list_all2 (\<lambda>d p. detail_path d = p
                            \<and> (c \<longrightarrow> outcome_of env embedder storeMemory d p)) ds ?batch"
      and t: "totalFiles ?results1 = totalFiles results" "pattern ?results1 = pattern results"
      by blast
    have "take (i + 10) files = take i files @ ?batch" by (simp add: take_add)
    then have inv: "list_all2 (\<lambda>d p. detail_path d = p
                                 \<and> (c \<longrightarrow> outcome_of env embedder storeMemory d p))
                      (details ?results1) (take (i + 10) files)"
      using "1.prems"(2) es ds by (simp add: list_all2_appendI)
    have step: "batch_loop env embedder storeMemory files i results s =
                  batch_loop env embedder storeMemory files (i + 10) ?results1 s1"
      using True by (simp add: batch_loop.simps [of env embedder storeMemory files i] sl st)
    have "(brs, s1) = settle_batch env embedder storeMemory (js_slice (int i) (int i + 10) files) s"
      using st sl by simp
    moreover have "counted (foldl record_result results
                              (zip brs (js_slice (int i) (int i + 10) files)))"
      using c sl by simp
    moreover have "list_all2 (\<lambda>d p. detail_path d = p
                                 \<and> (c \<longrightarrow> outcome_of env embedder storeMemory d p))
                      (details (foldl record_result results
                                  (zip brs (js_slice (int i) (int i + 10) files))))
                      (take (i + 10) files)"
      using inv sl by simp
    ultimately have "counted (fst (batch_loop env embedder storeMemory files (i + 10)
                                     ?results1 s1))
         \<and> list_all2 (\<lambda>d p. detail_path d = p
                         \<and> (c \<longrightarrow> outcome_of env embedder storeMemory d p))
              (details (fst (batch_loop env embedder storeMemory files (i + 10) ?results1 s1)))
              files
         \<and> totalFiles (fst (batch_loop env embedder storeMemory files (i + 10) ?results1 s1)) =
             totalFiles ?results1
         \<and> pattern (fst (batch_loop env embedder storeMemory files (i + 10) ?results1 s1)) =
             pattern ?results1"
      using "1.IH" [OF True refl refl _ refl _ _ cons, of brs] sl by simp
    then show ?thesis unfolding step using t by simp
  qed
qed

text \<open>
  C4. When the pattern is not empty, both services are wired in and the path resolver
  answers with a list of files, \<open>indexFiles\<close> completes, and its report counts as many
  files as were resolved; processed and failed files add up to that number; the entries
  of \<open>details\<close> are those of the files, one each, in the order of the list; the two
  counters count the entries of either kind; and, from a cache that is consistent with
  the View tool, every entry is the outcome of its own file (\<open>outcome_of\<close>): failed, with
  the message of the failure, when the read, the embedding or the storing of that file
  fails, and succeeded otherwise, whatever becomes of the other files.
\<close>

theorem indexFiles_report:
  assumes "pat \<noteq> []" and "globTool env = Some glob" and "glob pat = GlobOk files"
    and "embeddingService env = Some embedder" and "memoryEngine env = Some storeMemory"
  shows "\<exists>res s'. indexFiles env pat s = (Inr res, s')
           \<and> totalFiles (ir_data res) = length files
           \<and> processedFiles (ir_data res) + failedFiles (ir_data res) = totalFiles (ir_data res)
           \<and> map detail_path (details (ir_data res)) = files
           \<and> processedFiles (ir_data res) = length (filter detail_success (details (ir_data res)))
           \<and> failedFiles (ir_data res) =
               length (filter (\<lambda>d. \<not> detail_success d) (details (ir_data res)))
           \<and> (cache_consistent env s
                \<longrightarrow> list_all2 (outcome_of env embedder storeMemory)
                      (details (ir_data res)) files)"
proof -
  let ?results0 = "\<lparr>pattern = pat, totalFiles = length files, processedFiles = 0,
                    failedFiles = 0, details = []\<rparr>"
  let ?c = "cache_consistent env s"
  let ?E = "\<lambda>d p. detail_path d = p \<and> (?c \<longrightarrow> outcome_of env embedder storeMemory d p)"
  obtain t s1 where now: "date_now env s = (t, s1)" by (cases "date_now env s")
  then have cache1: "fileCache s1 = fileCache s" by (auto simp: date_now_def)
  have search: "searchFiles env pat s =
                  (Inr \<lparr>sr_pattern = pat, sr_matches = files, sr_count = length files,
                        sr_timestamp = t\<rparr>, s1)"
    using assms(1-3) now by (simp add: searchFiles_def)
  obtain rep s2 where loop: "batch_loop env embedder storeMemory files 0 ?results0 s1 = (rep, s2)"
    by (cases "batch_loop env embedder storeMemory files 0 ?results0 s1")
  have "counted ?results0" by (simp add: counted_def)
  moreover have "list_all2 ?E (details ?results0) (take 0 files)" by simp
  moreover have "?c \<longrightarrow> cache_consistent env s1"
    using cache_consistent_cong [OF cache1, of env] by simp
  ultimately have rep: "counted rep" "list_all2 ?E (details rep) files"
    "totalFiles rep = length files"
    using batch_loop_report [of ?results0 ?c env embedder storeMemory 0 files s1] loop by simp_all
  have len: "length (details rep) = length files" using rep(2) by (rule list_all2_lengthD)
  have paths: "map detail_path (details rep) = files"
  proof (rule nth_equalityI)
    show "length (map detail_path (details rep)) = length files" using len by simp
  next
    fix k assume "k < length (map detail_path (details rep))"
    then have k: "k < length (details rep)" by simp
    from list_all2_nthD [OF rep(2) k] show "map detail_path (details rep) ! k = files ! k"
      using k by simp
  qed
  have outcomes: "?c \<longrightarrow> list_all2 (outcome_of env embedder storeMemory) (details rep) files"
  proof
    assume ?c
    show "list_all2 (outcome_of env embedder storeMemory) (details rep) files"
      by (rule list_all2_mono [OF rep(2)]) (simp add: \<open>?c\<close>)
  qed
  have sum: "processedFiles rep + failedFiles rep = totalFiles rep"
    using rep(1,3) len sum_length_filter_compl [of detail_success "details rep"]
    by (simp add: counted_def)
  obtain t3 s3 where n3: "date_now env s2 = (t3, s3)" by (cases "date_now env s2")
  obtain t4 s4 where n4: "date_now env s3 = (t4, s4)" by (cases "date_now env s3")
  have "indexFiles env pat s = (Inr \<lparr>ir_data = rep, ir_timestamp = t4\<rparr>, s4)"
    using assms(1,4,5) by (simp add: indexFiles_def search loop n3 n4)
  then show ?thesis using rep sum paths outcomes by (simp add: counted_def)
qed


subsection \<open>The indexing examples\<close>

lemma example_env_fields:
  "viewTool example_env = Some example_view"
  "globTool example_env = Some (\<lambda>pat. GlobOk example_files)"
  "embeddingService example_env = Some (\<lambda>content. Inr [1])"
  "memoryEngine example_env = Some (\<lambda>key v md. None)"
  "dateNow example_env = (\<lambda>n. int n)"
  by (simp_all add: example_env_def)

lemma example_launched:
  assumes "fileCache s = Map.empty"
  shows "launch_all example_env example_files s =
     ([(''a.txt'', AwaitView (example_view ''a.txt'')),
       (''b.txt'', AwaitView (example_view ''b.txt'')),
       (''c.txt'', AwaitView (example_view ''c.txt'')),
       (''d.txt'', AwaitView (example_view ''d.txt'')),
       (''e.txt'', AwaitView (example_view ''e.txt''))], s)"
  using assms by (simp add: example_files_def launch_def call_view_def example_env_fields)

lemma example_views:
  "example_view ''a.txt'' =
     ViewOk ''text of a.txt'' \<lparr>vm_size = 13, vm_encoding = ''utf8'', vm_timestamp = 0\<rparr>"
  "example_view ''b.txt'' =
     ViewOk ''text of b.txt'' \<lparr>vm_size = 13, vm_encoding = ''utf8'', vm_timestamp = 0\<rparr>"
  "example_view ''c.txt'' = ViewFail ''ENOENT''"
  "example_view ''d.txt'' =
     ViewOk ''text of d.txt'' \<lparr>vm_size = 13, vm_encoding = ''utf8'', vm_timestamp = 0\<rparr>"
  "example_view ''e.txt'' =
     ViewOk ''text of e.txt'' \<lparr>vm_size = 13, vm_encoding = ''utf8'', vm_timestamp = 0\<rparr>"
  by (simp_all add: example_view_def)

lemma example_settled:
  "fst (settle_batch example_env (\<lambda>content. Inr [1]) (\<lambda>key v md. None) example_files
          (snd (date_now example_env FileAgent))) =
     [Inr (Succeeded ''a.txt'' 13 13), Inr (Succeeded ''b.txt'' 13 14),
      Inl (ReadFailed ''c.txt'' ''ENOENT''),
      Inr (Succeeded ''d.txt'' 13 15), Inr (Succeeded ''e.txt'' 13 16)]"
  by (simp add: settle_batch_def example_launched FileAgent_def example_views settle_all.simps
      date_now_def example_env_fields settled_results_def map_filter_simps Let_def)


lemma example_settled_clock:
  "clockReads (snd (settle_batch example_env (\<lambda>content. Inr [1]) (\<lambda>key v md. None)
                      example_files (snd (date_now example_env FileAgent)))) = 17"
  by (simp add: settle_batch_def example_launched FileAgent_def example_views settle_all.simps
      date_now_def example_env_fields Let_def)

lemma example_report:
  "fst (indexFiles example_env ''*.txt'' FileAgent) =
     Inr \<lparr>ir_data =
            \<lparr>pattern = ''*.txt'', totalFiles = 5, processedFiles = 4, failedFiles = 1,
             details = [Succeeded ''a.txt'' 13 13, Succeeded ''b.txt'' 13 14,
                        Failed ''c.txt'' ''Failed to read file c.txt: ENOENT'',
                        Succeeded ''d.txt'' 13 15, Succeeded ''e.txt'' 13 16]\<rparr>,
          ir_timestamp = 18\<rparr>"
proof -
  have slice: "js_slice 0 10 example_files = example_files"
    by (simp add: js_slice_def relative_index_def example_files_def)
  have len: "length example_files = 5" and ne: "example_files \<noteq> []"
    by (simp_all add: example_files_def)
  have zip: "zip [Inr (Succeeded ''a.txt'' 13 13), Inr (Succeeded ''b.txt'' 13 14),
                  Inl (ReadFailed ''c.txt'' ''ENOENT''),
                  Inr (Succeeded ''d.txt'' 13 15), Inr (Succeeded ''e.txt'' 13 16)]
               example_files =
             [(Inr (Succeeded ''a.txt'' 13 13), ''a.txt''),
              (Inr (Succeeded ''b.txt'' 13 14), ''b.txt''),
              (Inl (ReadFailed ''c.txt'' ''ENOENT''), ''c.txt''),
              (Inr (Succeeded ''d.txt'' 13 15), ''d.txt''),
              (Inr (Succeeded ''e.txt'' 13 16), ''e.txt'')]"
    by (simp add: example_files_def)
  have twice: "fst (date_now env (snd (date_now env s))) = dateNow env (Suc (clockReads s))"
    for env s
    by (simp add: date_now_def)
  show ?thesis
    unfolding indexFiles_def searchFiles_def example_env_fields
    by (simp add: split_def Let_def batch_loop.simps slice len example_settled
        example_settled_clock zip twice example_env_fields(5) ne)
qed


lemma cache_consistent_FileAgent: "cache_consistent env FileAgent"
  by (simp add: cache_consistent_def FileAgent_def)

text \<open>
  The example of the specification: of five files the third cannot be read. Four files
  are processed, one has failed, and the third entry carries the message of the read
  error.
\<close>

theorem indexFiles_report_witness:
  "''*.txt'' \<noteq> [] \<and> cache_consistent example_env FileAgent
   \<and> example_view ''c.txt'' = ViewFail ''ENOENT''
   \<and> fst (indexFiles example_env ''*.txt'' FileAgent) =
     Inr \<lparr>ir_data =
            \<lparr>pattern = ''*.txt'', totalFiles = 5, processedFiles = 4, failedFiles = 1,
             details = [Succeeded ''a.txt'' 13 13, Succeeded ''b.txt'' 13 14,
                        Failed ''c.txt'' ''Failed to read file c.txt: ENOENT'',
                        Succeeded ''d.txt'' 13 15, Succeeded ''e.txt'' 13 16]\<rparr>,
          ir_timestamp = 18\<rparr>
   \<and> list_all2 (outcome_of example_env (\<lambda>content. Inr [1]) (\<lambda>key v md. None))
        [Succeeded ''a.txt'' 13 13, Succeeded ''b.txt'' 13 14,
         Failed ''c.txt'' ''Failed to read file c.txt: ENOENT'',
         Succeeded ''d.txt'' 13 15, Succeeded ''e.txt'' 13 16] example_files"
proof -
  have ne: "''*.txt'' \<noteq> []" by simp
  have g: "(\<lambda>pat. GlobOk example_files) ''*.txt'' = GlobOk example_files" by simp
  from indexFiles_report [OF ne example_env_fields(2) g example_env_fields(3,4), of FileAgent]
    cache_consistent_FileAgent [of example_env]
  obtain res s' where run: "indexFiles example_env ''*.txt'' FileAgent = (Inr res, s')"
    and entries: "list_all2 (outcome_of example_env (\<lambda>content. Inr [1]) (\<lambda>key v md. None))
                    (details (ir_data res)) example_files"
    by blast
  from run have "fst (indexFiles example_env ''*.txt'' FileAgent) = Inr res" by simp
  then have "res = \<lparr>ir_data =
            \<lparr>pattern = ''*.txt'', totalFiles = 5, processedFiles = 4, failedFiles = 1,
             details = [Succeeded ''a.txt'' 13 13, Succeeded ''b.txt'' 13 14,
                        Failed ''c.txt'' ''Failed to read file c.txt: ENOENT'',
                        Succeeded ''d.txt'' 13 15, Succeeded ''e.txt'' 13 16]\<rparr>,
          ir_timestamp = 18\<rparr>"
    unfolding example_report by simp
  with entries show ?thesis
    by (simp add: example_report example_views cache_consistent_FileAgent)
qed

text \<open>
  The lookups of a batch come before its reads: the entry of the second file is still
  fresh when the batch is launched, so that file is indexed from the cache, although the
  reads of the first file take the clock past the lifetime of the entry.
\<close>

lemma boundary_env_fields:
  "viewTool boundary_env =
     Some (\<lambda>p. if p = ''b.txt'' then ViewFail ''ENOENT''
                else ViewOk ''new text''
                       \<lparr>vm_size = 8, vm_encoding = ''utf8'', vm_timestamp = 0\<rparr>)"
  "globTool boundary_env = Some (\<lambda>pat. GlobOk [''a.txt'', ''b.txt''])"
  "embeddingService boundary_env = Some (\<lambda>content. Inr [1])"
  "memoryEngine boundary_env = Some (\<lambda>key v md. None)"
  "dateNow boundary_env = (\<lambda>n. 1000 * int n)"
  by (simp_all add: boundary_env_def)

lemma batch_lookups_before_reads:
  "fst (indexFiles boundary_env ''*.txt'' boundary_agent) =
     Inr \<lparr>ir_data =
            \<lparr>pattern = ''*.txt'', totalFiles = 2, processedFiles = 2, failedFiles = 0,
             details = [Succeeded ''a.txt'' 8 8000, Succeeded ''b.txt'' 8 7000]\<rparr>,
          ir_timestamp = 10000\<rparr>"
  unfolding indexFiles_def searchFiles_def boundary_env_fields
  by (simp add: split_def Let_def batch_loop.simps js_slice_def relative_index_def
      settle_batch_def launch_def call_view_def settle_all.simps settled_results_def
      map_filter_simps date_now_def boundary_env_fields boundary_agent_def FileAgent_def)

subsection \<open>The content cache\<close>









end
